theory Spec2Isabelle
  imports Main
begin

section \<open>Byte strings\<close>

text \<open>
  A Python \<open>bytes\<close> object is a sequence of 8-bit values; it is modelled as a list of
  \<^typ>\<open>char\<close>, whose values are exactly the bytes \<open>0x00 .. 0xFF\<close>.
\<close>

type_synonym bytes = "char list"

text \<open>The two marker literals of \<open>generate_frames\<close>: \<open>b'\xff\xd8'\<close> and \<open>b'\xff\xd9'\<close>.\<close>

definition SOI :: bytes where
  "SOI = [CHR 0xFF, CHR 0xD8]"

definition EOI :: bytes where
  "EOI = [CHR 0xFF, CHR 0xD9]"

text \<open>
  \<open>data.find(sub, start)\<close>: the lowest index \<open>i \<ge> start\<close> with
  \<open>data[i:i+len(sub)] == sub\<close>, or \<open>-1\<close>. A negative \<open>start\<close> counts from the end
  and is clamped at 0; a \<open>start\<close> beyond the end finds nothing.
\<close>

fun find_aux :: "bytes \<Rightarrow> bytes \<Rightarrow> nat \<Rightarrow> int" where
  "find_aux sub [] i = (if sub = [] then int i else - 1)"
| "find_aux sub (x # xs) i =
     (if take (length sub) (x # xs) = sub then int i else find_aux sub xs (Suc i))"

definition bytes_find :: "bytes \<Rightarrow> bytes \<Rightarrow> int \<Rightarrow> int" where
  "bytes_find data sub start =
     (let n = int (length data);
          s = (if start < 0 then max 0 (start + n) else start)
      in if n < s then - 1 else find_aux sub (drop (nat s) data) (nat s))"

text \<open>
  Slicing \<open>data[lo:hi]\<close> and \<open>data[lo:]\<close>: an index is taken from the end when negative
  and clamped to the range \<open>0 .. len(data)\<close>.
\<close>

definition slice_index :: "nat \<Rightarrow> int \<Rightarrow> nat" where
  "slice_index n i = (if i < 0 then nat (max 0 (i + int n)) else min (nat i) n)"

definition bytes_slice :: "bytes \<Rightarrow> int \<Rightarrow> int \<Rightarrow> bytes" where
  "bytes_slice data lo hi =
     (let l = slice_index (length data) lo; h = slice_index (length data) hi
      in take (h - l) (drop l data))"

definition bytes_slice_from :: "bytes \<Rightarrow> int \<Rightarrow> bytes" where
  "bytes_slice_from data lo = drop (slice_index (length data) lo) data"

text \<open>\<open>str(n)\<close> for a Python integer: decimal digits, with a minus sign when negative.\<close>

definition digit_char :: "nat \<Rightarrow> char" where
  "digit_char d = char_of (48 + d)"

function str_nat :: "nat \<Rightarrow> string" where
  "str_nat n = (if n < 10 then [digit_char n] else str_nat (n div 10) @ [digit_char (n mod 10)])"
  by pat_completeness auto
termination
  by (relation "measure (\<lambda>n. n)") auto

declare str_nat.simps [simp del]

definition str_int :: "int \<Rightarrow> string" where
  "str_int i = (if i < 0 then CHR ''-'' # str_nat (nat (- i)) else str_nat (nat i))"

section \<open>The registry table\<close>

text \<open>
  The table \<open>streams (id INTEGER PRIMARY KEY, url TEXT, active INTEGER, quality TEXT,
  resolution TEXT, fps INTEGER)\<close> is a list of rows. The values are those of the declared
  argument types of \<open>add_stream\<close>: \<open>url\<close>, \<open>quality\<close> and \<open>resolution\<close> are \<open>str\<close>, \<open>fps\<close>
  is \<open>int\<close>. A text in a \<open>TEXT\<close> column and an integer in an \<open>INTEGER\<close> column are stored as
  they are. (The HTTP endpoint passes the values of the JSON body on as they come. A
  value of another type than declared, such as an \<open>fps\<close> sent as a JSON string, goes through
  the column's type affinity, which may convert it. Such calls are not part of this model:
  what is proved about \<open>add_stream\<close> is about calls at the declared types.)
\<close>

record stream_row =
  row_id :: int
  url :: string
  active :: int
  quality :: string
  resolution :: string
  fps :: int

type_synonym table = "stream_row list"

text \<open>
  An integer can be bound to a statement only when it fits a signed 64-bit \<open>INTEGER\<close>:
  otherwise \<open>execute\<close> raises \<open>OverflowError\<close> and the statement does not run.
\<close>

datatype db_error = OverflowError

definition sqlite_int :: "int \<Rightarrow> bool" where
  "sqlite_int i = (- 9223372036854775808 \<le> i \<and> i < 9223372036854775808)"



text \<open>
  \<open>query_db('SELECT url, quality, resolution, fps FROM streams WHERE id = ?', [stream_id],
  one=True)\<close>: the first matching row's four columns, or \<open>None\<close>; \<open>OverflowError\<close> when
  \<open>stream_id\<close> cannot be bound.
\<close>

definition query_stream :: "table \<Rightarrow> int \<Rightarrow> db_error + (string \<times> string \<times> string \<times> int) option" where
  "query_stream tbl stream_id =
     (if \<not> sqlite_int stream_id then Inl OverflowError
      else case filter (\<lambda>r. row_id r = stream_id) tbl of
             [] \<Rightarrow> Inr None
           | r # _ \<Rightarrow> Inr (Some (url r, quality r, resolution r, fps r)))"

text \<open>The table after \<open>add_stream('rtsp://cam', '5', '640x480', 15)\<close> on the empty table.\<close>

definition one_camera :: table where
  "one_camera =
     [\<lparr>row_id = 1, url = ''rtsp://cam'', active = 1, quality = ''5'', resolution = ''640x480'',
       fps = 15\<rparr>]"

section \<open>The generator \<open>generate_frames\<close>\<close>

text \<open>The decoder command line, as the list \<open>command\<close> is built.\<close>

definition command :: "string \<Rightarrow> string \<Rightarrow> string \<Rightarrow> int \<Rightarrow> string list" where
  "command stream_url quality' resolution' fps' =
     [''ffmpeg'',
      ''-rtsp_transport'', ''tcp'',
      ''-i'', stream_url,
      ''-r'', str_int fps',
      ''-c:v'', ''mjpeg'',
      ''-vf'', ''scale='' @ resolution',
      ''-q:v'', quality',
      ''-f'', ''image2pipe'',
      ''-'']"

text \<open>
  One multipart section: \<open>b'--frame\r\nContent-Type: image/jpeg\r\n\r\n' + frame + b'\r\n'\<close>.
\<close>

definition CRLF :: bytes where
  "CRLF = [CHR 0x0D, CHR 0x0A]"

definition part_header :: bytes where
  "part_header = ''--frame'' @ CRLF @ ''Content-Type: image/jpeg'' @ CRLF @ CRLF"

definition part :: "bytes \<Rightarrow> bytes" where
  "part frame = part_header @ frame @ CRLF"

text \<open>
  What the generator does that can be seen from outside, in order: the launch of the decoder
  process, each \<open>p.stdout.read(4096)\<close>, each chunk yielded, \<open>p.kill()\<close>, and the exit of
  the \<open>with\<close> block (which closes the pipe and waits for the process).
\<close>

datatype event = Popen "string list" | Read nat | Yield bytes | Kill | Wait

text \<open>
  The byte source is a script of read outcomes: a read returns the next chunk of the script
  or raises; a read beyond the script returns \<open>b''\<close>. An execution that completes performs
  finitely many reads, so a finite script describes it. \<open>read(4096)\<close> returns at most 4096
  bytes; the script may hold chunks of any size, so what is proved for every script holds
  for the scripts a pipe can deliver.
\<close>

datatype read_result = Chunk bytes | Read_fails

text \<open>
  The consumer decides, each time the generator is suspended at a \<open>yield\<close>, how it is
  resumed: by \<open>next()\<close>, by \<open>close()\<close> (\<open>GeneratorExit\<close> is raised at the \<open>yield\<close>; this is
  what a client disconnect does), or by \<open>throw()\<close>. The argument is the number of chunks
  yielded before this one.
\<close>

datatype resume = Next | Close | Throw

type_synonym consumer = "nat \<Rightarrow> resume"

text \<open>
  Two consumers: one that asks for every chunk, and a client that disconnects once it has
  received \<open>n\<close> chunks (the generator is closed while suspended at its \<open>n\<close>-th \<open>yield\<close>).
\<close>

definition take_all :: consumer where
  "take_all k = Next"

definition close_after :: "nat \<Rightarrow> consumer" where
  "close_after n k = (if Suc k < n then Next else Close)"

text \<open>
  How a loop, and in the end the generator, is left: normally (by \<open>break\<close> or
  \<open>return\<close>), or by an exception: \<open>GeneratorExit\<close> raised at a \<open>yield\<close> by \<open>close()\<close>, an
  exception thrown in at a \<open>yield\<close>, an exception of \<open>read\<close>, the failure of
  \<open>subprocess.Popen\<close> to start the program, or the \<open>OverflowError\<close> of the lookup.
\<close>

datatype exit_path =
  Normal | Generator_exit | Thrown | Read_error | Launch_error | Overflow_error

text \<open>
  The inner \<open>while True\<close>: the boundary scan over \<open>data\<close>. The result is the events, how
  the loop was left, the number of chunks yielded so far and the value of \<open>data\<close>.
\<close>

function inner_loop :: "consumer \<Rightarrow> nat \<Rightarrow> bytes \<Rightarrow> event list \<times> exit_path \<times> nat \<times> bytes" where
  "inner_loop c k data =
     (let start = bytes_find data SOI 0;
          end = bytes_find data EOI (start + 2)
      in if start \<noteq> - 1 \<and> end \<noteq> - 1 then
           (let frame = bytes_slice data start (end + 2);
                data' = bytes_slice_from data (end + 2)
            in case c k of
                 Next \<Rightarrow>
                   (case inner_loop c (Suc k) data' of
                      (evs, r) \<Rightarrow> (Yield (part frame) # evs, r))
               | Close \<Rightarrow> ([Yield (part frame)], Generator_exit, Suc k, data')
               | Throw \<Rightarrow> ([Yield (part frame)], Thrown, Suc k, data'))
         else ([], Normal, k, data))"
  by pat_completeness auto

text \<open>
  The outer \<open>while True\<close>, the body of the \<open>try\<close>: read, stop on an empty read, append,
  scan. A read that raises leaves the loop with the exception; so does a \<open>yield\<close> at which
  the consumer did not ask for the next chunk.
\<close>

fun outer_loop :: "consumer \<Rightarrow> read_result list \<Rightarrow> nat \<Rightarrow> bytes \<Rightarrow> event list \<times> exit_path \<times> nat \<times> bytes" where
  "outer_loop c [] k data = ([Read 4096], Normal, k, data)"
| "outer_loop c (Read_fails # src) k data = ([Read 4096], Read_error, k, data)"
| "outer_loop c (Chunk chunk # src) k data =
     (if chunk = [] then ([Read 4096], Normal, k, data)
      else case inner_loop c k (data @ chunk) of
             (evs, Normal, k', data') \<Rightarrow>
               (case outer_loop c src k' data' of (evs', r) \<Rightarrow> (Read 4096 # evs @ evs', r))
           | (evs, r) \<Rightarrow> (Read 4096 # evs, r))"

text \<open>
  What one call of \<open>generate_frames\<close> meets: the table, whether the decoder program can be
  started, what the decoder's pipe delivers, and the consumer of the generator.
\<close>

record env =
  db :: table
  can_launch :: bool
  source :: "read_result list"
  consumer :: consumer

record run =
  trace :: "event list"
  exit :: exit_path

text \<open>
  \<open>generate_frames\<close>, from the first \<open>next()\<close> on: the lookup, which may raise, and its
  early \<open>return\<close>, the command, the \<open>with subprocess.Popen(...)\<close> block, the \<open>try\<close> with the loops, and
  \<open>finally: p.kill()\<close>, which runs however the \<open>try\<close> is left.
\<close>

definition generate_frames :: "env \<Rightarrow> int \<Rightarrow> run" where
  "generate_frames e stream_id =
     (case query_stream (db e) stream_id of
        Inl OverflowError \<Rightarrow> \<lparr>trace = [], exit = Overflow_error\<rparr>
      | Inr None \<Rightarrow> \<lparr>trace = [], exit = Normal\<rparr>
      | Inr (Some (stream_url, quality', resolution', fps')) \<Rightarrow>
          if \<not> can_launch e then \<lparr>trace = [], exit = Launch_error\<rparr>
          else case outer_loop (consumer e) (source e) 0 [] of
                 (evs, r, k, data) \<Rightarrow>
                   \<lparr>trace = Popen (command stream_url quality' resolution' fps') # evs @ [Kill, Wait],
                    exit = r\<rparr>)"

text \<open>
  \<open>video_feed\<close>: a \<open>Response\<close> around the generator. No status is given, so the response has
  the framework's default status, 200. The generator is not run by \<open>video_feed\<close>: the body of
  the response is what the generator does when it is iterated.
\<close>

record response =
  status :: nat
  mimetype :: string
  body :: run

definition video_feed :: "env \<Rightarrow> int \<Rightarrow> response" where
  "video_feed e stream_id =
     \<lparr>status = 200,
      mimetype = ''multipart/x-mixed-replace; boundary=frame'',
      body = generate_frames e stream_id\<rparr>"

text \<open>The chunks a run yielded, and the decoder processes it started.\<close>

fun yielded :: "event list \<Rightarrow> bytes list" where
  "yielded [] = []"
| "yielded (Yield b # evs) = b # yielded evs"
| "yielded (ev # evs) = yielded evs"

fun launches :: "event list \<Rightarrow> nat" where
  "launches [] = 0"
| "launches (Popen cmd # evs) = Suc (launches evs)"
| "launches (ev # evs) = launches evs"

section \<open>Markers in a buffer\<close>

text \<open>Where a byte string occurs in a buffer: \<open>data[i:i+len(sub)] == sub\<close>.\<close>

definition occurs_at :: "bytes \<Rightarrow> bytes \<Rightarrow> nat \<Rightarrow> bool" where
  "occurs_at data sub i = (take (length sub) (drop i data) = sub)"

definition marker_positions :: "bytes \<Rightarrow> bytes \<Rightarrow> nat list" where
  "marker_positions data m = filter (occurs_at data m) [0..<length data]"

text \<open>A completed frame in the buffer: a start marker followed by a later end marker.\<close>

definition has_complete_pair :: "bytes \<Rightarrow> bool" where
  "has_complete_pair data =
     (\<exists>i \<in> set (marker_positions data SOI). \<exists>j \<in> set (marker_positions data EOI). i < j)"

text \<open>
  A span from a start marker through the first end marker after it: it begins with
  \<open>0xFFD8\<close>, and its only end marker \<open>0xFFD9\<close> is its last two bytes.
\<close>

definition is_span :: "bytes \<Rightarrow> bool" where
  "is_span f = (take 2 f = SOI \<and> marker_positions f EOI = [length f - 2])"

text \<open>
  The values one pass of the inner loop computes from \<open>data\<close>: \<open>start\<close>, \<open>end\<close>, the loop
  condition, \<open>frame\<close> and the new \<open>data\<close>.
\<close>

definition start_of :: "bytes \<Rightarrow> int" where
  "start_of data = bytes_find data SOI 0"

definition end_of :: "bytes \<Rightarrow> int" where
  "end_of data = bytes_find data EOI (start_of data + 2)"

definition complete :: "bytes \<Rightarrow> bool" where
  "complete data = (start_of data \<noteq> - 1 \<and> end_of data \<noteq> - 1)"

definition frame_of :: "bytes \<Rightarrow> bytes" where
  "frame_of data = bytes_slice data (start_of data) (end_of data + 2)"

definition rest_of :: "bytes \<Rightarrow> bytes" where
  "rest_of data = bytes_slice_from data (end_of data + 2)"

section \<open>Properties of the search and of the loops\<close>

subsection \<open>What \<open>find\<close> returns\<close>

lemma take_eq_length: "take (length sub) xs = sub \<Longrightarrow> length sub \<le> length xs"
proof -
  assume a: "take (length sub) xs = sub"
  have "length (take (length sub) xs) = length sub" using a by simp
  then show ?thesis by simp
qed

lemma take_append_le: "n \<le> length l \<Longrightarrow> take n (l @ ys) = take n l"
  by simp

lemma find_aux_range:
  "find_aux sub xs i \<noteq> - 1 \<Longrightarrow>
     int i \<le> find_aux sub xs i \<and> find_aux sub xs i + int (length sub) \<le> int i + int (length xs)"
proof (induction xs arbitrary: i)
  case Nil
  then show ?case by (simp split: if_splits)
next
  case (Cons x xs)
  show ?case
  proof (cases "take (length sub) (x # xs) = sub")
    case True
    from take_eq_length [OF True] True show ?thesis by simp
  next
    case False
    with Cons.prems have "find_aux sub xs (Suc i) \<noteq> - 1" by simp
    from Cons.IH [OF this] False show ?thesis by simp
  qed
qed

lemma find_aux_occurs:
  "find_aux sub xs i \<noteq> - 1 \<Longrightarrow> occurs_at xs sub (nat (find_aux sub xs i) - i)"
proof (induction xs arbitrary: i)
  case Nil
  then show ?case by (simp add: occurs_at_def split: if_splits)
next
  case (Cons x xs)
  show ?case
  proof (cases "take (length sub) (x # xs) = sub")
    case True
    then show ?thesis by (simp add: occurs_at_def)
  next
    case False
    with Cons.prems have ne: "find_aux sub xs (Suc i) \<noteq> - 1" by simp
    from find_aux_range [OF ne] have "int (Suc i) \<le> find_aux sub xs (Suc i)" by simp
    then have "nat (find_aux sub xs (Suc i)) - i = Suc (nat (find_aux sub xs (Suc i)) - Suc i)"
      by linarith
    with Cons.IH [OF ne] False show ?thesis by (simp add: occurs_at_def)
  qed
qed

lemma find_aux_first:
  "int i + int j < find_aux sub xs i \<Longrightarrow> \<not> occurs_at xs sub j"
proof (induction xs arbitrary: i j)
  case Nil
  then show ?case by (auto simp add: occurs_at_def split: if_splits)
next
  case (Cons x xs)
  show ?case
  proof (cases "take (length sub) (x # xs) = sub")
    case True
    with Cons.prems show ?thesis by simp
  next
    case False
    show ?thesis
    proof (cases j)
      case 0
      with False show ?thesis by (simp add: occurs_at_def)
    next
      case (Suc j')
      with Cons.prems False have "int (Suc i) + int j' < find_aux sub xs (Suc i)" by simp
      from Cons.IH [OF this] Suc show ?thesis by (simp add: occurs_at_def)
    qed
  qed
qed

lemma find_aux_none:
  "find_aux sub xs i = - 1 \<Longrightarrow> sub \<noteq> [] \<Longrightarrow> \<not> occurs_at xs sub j"
proof (induction xs arbitrary: i j)
  case Nil
  then show ?case by (auto simp add: occurs_at_def)
next
  case (Cons x xs)
  from Cons.prems have nm: "take (length sub) (x # xs) \<noteq> sub" and
    rec: "find_aux sub xs (Suc i) = - 1"
    by (auto split: if_splits)
  show ?case
  proof (cases j)
    case 0
    with nm show ?thesis by (simp add: occurs_at_def)
  next
    case (Suc j')
    from Cons.IH [OF rec Cons.prems(2)] Suc show ?thesis by (simp add: occurs_at_def)
  qed
qed

lemma find_aux_append:
  "find_aux sub xs i \<noteq> - 1 \<Longrightarrow> find_aux sub (xs @ ys) i = find_aux sub xs i"
proof (induction xs arbitrary: i)
  case Nil
  then show ?case by (cases ys) (auto split: if_splits)
next
  case (Cons x xs)
  show ?case
  proof (cases "take (length sub) (x # xs) = sub")
    case True
    from take_eq_length [OF True] have "take (length sub) ((x # xs) @ ys) = take (length sub) (x # xs)"
      by (rule take_append_le)
    with True show ?thesis by simp
  next
    case False
    with Cons.prems have ne: "find_aux sub xs (Suc i) \<noteq> - 1" by simp
    from find_aux_range [OF ne] have "length sub \<le> length (x # xs)" by simp
    then have "take (length sub) ((x # xs) @ ys) = take (length sub) (x # xs)"
      by (rule take_append_le)
    with Cons.IH [OF ne] False show ?thesis by simp
  qed
qed

lemma bytes_find_found:
  assumes "0 \<le> s" and "bytes_find data sub s \<noteq> - 1"
  shows "s \<le> bytes_find data sub s"
    and "bytes_find data sub s + int (length sub) \<le> int (length data)"
    and "occurs_at data sub (nat (bytes_find data sub s))"
proof -
  let ?r = "find_aux sub (drop (nat s) data) (nat s)"
  from assms have le: "s \<le> int (length data)"
    by (simp add: bytes_find_def Let_def split: if_splits)
  with assms have eq: "bytes_find data sub s = ?r"
    by (simp add: bytes_find_def Let_def)
  with assms have ne: "?r \<noteq> - 1" by simp
  from find_aux_range [OF ne] assms(1) le eq
  show "s \<le> bytes_find data sub s"
    and "bytes_find data sub s + int (length sub) \<le> int (length data)"
    by simp_all
  from find_aux_range [OF ne] assms(1) have "s \<le> ?r" by simp
  then have "nat s \<le> nat ?r" by (rule nat_mono)
  then have "nat ?r - nat s + nat s = nat ?r" by simp
  moreover from find_aux_occurs [OF ne]
  have "take (length sub) (drop (nat ?r - nat s + nat s) data) = sub"
    by (simp add: occurs_at_def)
  ultimately show "occurs_at data sub (nat (bytes_find data sub s))"
    using eq by (simp add: occurs_at_def)
qed

lemma bytes_find_first:
  assumes "0 \<le> s" and "nat s \<le> j" and "int j < bytes_find data sub s"
  shows "\<not> occurs_at data sub j"
proof -
  let ?r = "find_aux sub (drop (nat s) data) (nat s)"
  from assms have ne: "bytes_find data sub s \<noteq> - 1" by linarith
  with assms(1) have le: "s \<le> int (length data)"
    by (simp add: bytes_find_def Let_def split: if_splits)
  with assms(1) have eq: "bytes_find data sub s = ?r"
    by (simp add: bytes_find_def Let_def)
  from assms eq have "int (nat s) + int (j - nat s) < ?r" by simp
  from find_aux_first [OF this] assms(2) show ?thesis
    by (simp add: occurs_at_def)
qed

lemma bytes_find_none:
  assumes "0 \<le> s" and "bytes_find data sub s = - 1" and "sub \<noteq> []" and "nat s \<le> j"
  shows "\<not> occurs_at data sub j"
proof (cases "s \<le> int (length data)")
  case True
  with assms have "find_aux sub (drop (nat s) data) (nat s) = - 1"
    by (simp add: bytes_find_def Let_def)
  from find_aux_none [OF this assms(3), of "j - nat s"] assms(4) show ?thesis
    by (simp add: occurs_at_def)
next
  case False
  with assms have "length data \<le> j" by linarith
  with assms(3) show ?thesis by (simp add: occurs_at_def)
qed

lemma bytes_find_append:
  assumes "0 \<le> s" and "bytes_find data sub s \<noteq> - 1"
  shows "bytes_find (data @ ys) sub s = bytes_find data sub s"
proof -
  from assms have le: "s \<le> int (length data)"
    by (simp add: bytes_find_def Let_def split: if_splits)
  with assms have ne: "find_aux sub (drop (nat s) data) (nat s) \<noteq> - 1"
    by (simp add: bytes_find_def Let_def)
  from le assms(1) have "drop (nat s) (data @ ys) = drop (nat s) data @ ys" by simp
  with find_aux_append [OF ne, of ys] le assms(1) show ?thesis
    by (simp add: bytes_find_def Let_def)
qed

lemma bytes_find_eqI:
  assumes "0 \<le> s" and "sub \<noteq> []" and "nat s \<le> j" and "occurs_at data sub j"
    and "\<And>i. nat s \<le> i \<Longrightarrow> i < j \<Longrightarrow> \<not> occurs_at data sub i"
  shows "bytes_find data sub s = int j"
proof -
  let ?r = "bytes_find data sub s"
  have ne: "?r \<noteq> - 1"
    using bytes_find_none [OF assms(1) _ assms(2) assms(3)] assms(4) by blast
  have "\<not> int j < ?r"
    using bytes_find_first [OF assms(1) assms(3)] assms(4) by blast
  moreover have "\<not> ?r < int j"
  proof
    assume lt: "?r < int j"
    from bytes_find_found(1) [OF assms(1) ne] assms(1) have "nat s \<le> nat ?r" by simp
    moreover from lt bytes_find_found(1) [OF assms(1) ne] assms(1) have "nat ?r < j" by linarith
    ultimately have "\<not> occurs_at data sub (nat ?r)" by (rule assms(5))
    with bytes_find_found(3) [OF assms(1) ne] show False by simp
  qed
  ultimately show ?thesis by simp
qed

lemma inner_loop_shrinks:
  assumes "bytes_find data SOI 0 \<noteq> - 1"
    and "bytes_find data EOI (bytes_find data SOI 0 + 2) \<noteq> - 1"
  shows "length (bytes_slice_from data (bytes_find data EOI (bytes_find data SOI 0 + 2) + 2))
    < length data"
proof -
  let ?s = "bytes_find data SOI 0"
  let ?e = "bytes_find data EOI (?s + 2)"
  from bytes_find_found(1) [OF _ assms(1)] have s0: "0 \<le> ?s" by simp
  then have s2: "0 \<le> ?s + 2" by simp
  from bytes_find_found(1,2) [OF s2 assms(2)] s0
  have "2 \<le> ?e" and "?e + 2 \<le> int (length data)" by (simp_all add: EOI_def)
  then show ?thesis
    by (simp add: bytes_slice_from_def slice_index_def)
qed

termination inner_loop
  by (relation "measure (\<lambda>(c, k, data). length data)") (auto intro: inner_loop_shrinks)

declare inner_loop.simps [simp del]

subsection \<open>One pass of the boundary scan\<close>

lemma inner_loop_unfold:
  "inner_loop c k data =
     (if complete data then
        (case c k of
           Next \<Rightarrow> (case inner_loop c (Suc k) (rest_of data) of
                      (evs, r) \<Rightarrow> (Yield (part (frame_of data)) # evs, r))
         | Close \<Rightarrow> ([Yield (part (frame_of data))], Generator_exit, Suc k, rest_of data)
         | Throw \<Rightarrow> ([Yield (part (frame_of data))], Thrown, Suc k, rest_of data))
      else ([], Normal, k, data))"
  by (subst inner_loop.simps)
    (simp add: Let_def complete_def start_of_def end_of_def frame_of_def rest_of_def
      split: resume.split)

lemma inner_loop_incomplete: "\<not> complete data \<Longrightarrow> inner_loop c k data = ([], Normal, k, data)"
  by (subst inner_loop_unfold) simp

lemma complete_bounds:
  assumes "complete data"
  shows "0 \<le> start_of data" and "start_of data + 2 \<le> end_of data"
    and "end_of data + 2 \<le> int (length data)"
    and "occurs_at data SOI (nat (start_of data))"
    and "occurs_at data EOI (nat (end_of data))"
proof -
  from assms have s: "bytes_find data SOI 0 \<noteq> - 1"
    and e: "bytes_find data EOI (start_of data + 2) \<noteq> - 1"
    by (simp_all add: complete_def start_of_def end_of_def)
  from bytes_find_found(1) [OF _ s] show s0: "0 \<le> start_of data"
    by (simp add: start_of_def)
  then have s2: "0 \<le> start_of data + 2" by simp
  from bytes_find_found(1) [OF s2 e] show "start_of data + 2 \<le> end_of data"
    by (simp add: end_of_def)
  from bytes_find_found(2) [OF s2 e] show "end_of data + 2 \<le> int (length data)"
    by (simp add: end_of_def EOI_def)
  from bytes_find_found(3) [OF _ s] show "occurs_at data SOI (nat (start_of data))"
    by (simp add: start_of_def)
  from bytes_find_found(3) [OF s2 e] show "occurs_at data EOI (nat (end_of data))"
    by (simp add: end_of_def)
qed

lemma frame_of_eq:
  assumes "complete data"
  shows "frame_of data = take (nat (end_of data) + 2 - nat (start_of data)) (drop (nat (start_of data)) data)"
proof -
  note b = complete_bounds [OF assms]
  from b(1,2,3) have "slice_index (length data) (start_of data) = nat (start_of data)"
    and "slice_index (length data) (end_of data + 2) = nat (end_of data) + 2"
    by (simp_all add: slice_index_def)
  then show ?thesis by (simp add: frame_of_def bytes_slice_def Let_def)
qed

lemma rest_of_eq:
  assumes "complete data"
  shows "rest_of data = drop (nat (end_of data) + 2) data"
proof -
  note b = complete_bounds [OF assms]
  from b(1,2,3) have "slice_index (length data) (end_of data + 2) = nat (end_of data) + 2"
    by (simp add: slice_index_def)
  then show ?thesis by (simp add: rest_of_def bytes_slice_from_def)
qed

lemma split_at_frame:
  assumes "complete data"
  shows "data = take (nat (start_of data)) data @ frame_of data @ rest_of data"
proof -
  note b = complete_bounds [OF assms]
  let ?s = "nat (start_of data)" and ?e = "nat (end_of data)"
  from b(1,2) have le: "?s \<le> ?e + 2" by linarith
  have "frame_of data @ rest_of data = drop ?s data"
  proof -
    have "drop (?e + 2) data = drop (?e + 2 - ?s) (drop ?s data)"
      using le by simp
    then show ?thesis
      by (simp only: frame_of_eq [OF assms] rest_of_eq [OF assms] append_take_drop_id)
  qed
  then show ?thesis by simp
qed

lemma length_frame_of:
  assumes "complete data"
  shows "length (frame_of data) = nat (end_of data) + 2 - nat (start_of data)"
proof -
  note b = complete_bounds [OF assms]
  from b(1,2,3) show ?thesis
    by (simp add: frame_of_eq [OF assms])
qed

subsection \<open>Markers and completed frames\<close>

lemma occurs_at_nth:
  assumes "occurs_at data [a, b] i"
  shows "Suc i < length data" and "data ! i = a" and "data ! Suc i = b"
proof -
  from assms have t: "take (Suc (Suc 0)) (drop i data) = [a, b]" by (simp add: occurs_at_def)
  then have "length (take (Suc (Suc 0)) (drop i data)) = Suc (Suc 0)" by simp
  then show len: "Suc i < length data" by simp
  from t have "take (Suc (Suc 0)) (drop i data) ! 0 = a"
    and "take (Suc (Suc 0)) (drop i data) ! Suc 0 = b" by simp_all
  with len show "data ! i = a" and "data ! Suc i = b" by simp_all
qed

lemma marker_positions_iff:
  "i \<in> set (marker_positions data [a, b]) \<longleftrightarrow> occurs_at data [a, b] i"
proof
  assume "i \<in> set (marker_positions data [a, b])"
  then show "occurs_at data [a, b] i" by (simp add: marker_positions_def)
next
  assume o: "occurs_at data [a, b] i"
  from occurs_at_nth(1) [OF o] have "i < length data" by simp
  with o show "i \<in> set (marker_positions data [a, b])" by (simp add: marker_positions_def)
qed

lemma SOI_positions: "i \<in> set (marker_positions data SOI) \<longleftrightarrow> occurs_at data SOI i"
  unfolding SOI_def by (rule marker_positions_iff)

lemma EOI_positions: "i \<in> set (marker_positions data EOI) \<longleftrightarrow> occurs_at data EOI i"
  unfolding EOI_def by (rule marker_positions_iff)

lemma has_complete_pair_iff:
  "has_complete_pair data \<longleftrightarrow> (\<exists>i j. i < j \<and> occurs_at data SOI i \<and> occurs_at data EOI j)"
proof
  assume "has_complete_pair data"
  then obtain i j where "i \<in> set (marker_positions data SOI)"
    and "j \<in> set (marker_positions data EOI)" and "i < j"
    unfolding has_complete_pair_def by blast
  then show "\<exists>i j. i < j \<and> occurs_at data SOI i \<and> occurs_at data EOI j"
    unfolding SOI_positions EOI_positions by blast
next
  assume "\<exists>i j. i < j \<and> occurs_at data SOI i \<and> occurs_at data EOI j"
  then obtain i j where "i < j" and "occurs_at data SOI i" and "occurs_at data EOI j" by blast
  then have "i \<in> set (marker_positions data SOI)" and "j \<in> set (marker_positions data EOI)"
    and "i < j"
    unfolding SOI_positions EOI_positions by simp_all
  then show "has_complete_pair data" unfolding has_complete_pair_def by blast
qed

lemma end_after_start:
  assumes "occurs_at data SOI s" and "occurs_at data EOI j" and "s < j"
  shows "s + 2 \<le> j"
proof (rule ccontr)
  assume "\<not> s + 2 \<le> j"
  with assms(3) have j: "j = Suc s" by simp
  from occurs_at_nth(3) [OF assms(1) [unfolded SOI_def]] have "data ! Suc s = CHR 0xD8" .
  moreover from occurs_at_nth(2) [OF assms(2) [unfolded EOI_def]] j have "data ! Suc s = CHR 0xFF"
    by simp
  ultimately show False by simp
qed

lemma complete_imp_pair: "complete data \<Longrightarrow> has_complete_pair data"
proof -
  assume c: "complete data"
  note b = complete_bounds [OF c]
  from b(1,2) have "nat (start_of data) < nat (end_of data)" by linarith
  with b(4,5) show ?thesis unfolding has_complete_pair_iff by blast
qed

lemma pair_imp_complete:
  assumes "occurs_at data SOI i" and "occurs_at data EOI j" and "i < j"
  shows "complete data"
proof -
  have s: "start_of data \<noteq> - 1"
  proof
    assume "start_of data = - 1"
    then have "bytes_find data SOI 0 = - 1" by (simp add: start_of_def)
    from bytes_find_none [OF _ this, of i] assms(1) show False by (simp add: SOI_def)
  qed
  from bytes_find_found [OF _ s [unfolded start_of_def]]
  have s0: "0 \<le> start_of data" and so: "occurs_at data SOI (nat (start_of data))"
    by (simp_all add: start_of_def)
  have si: "nat (start_of data) \<le> i"
  proof (rule ccontr)
    assume "\<not> nat (start_of data) \<le> i"
    with s0 have "int i < bytes_find data SOI 0" by (simp add: start_of_def)
    from bytes_find_first [OF _ _ this] assms(1) show False by simp
  qed
  with assms(3) have "nat (start_of data) < j" by simp
  from end_after_start [OF so assms(2) this] have sj: "nat (start_of data) + 2 \<le> j" .
  have "end_of data \<noteq> - 1"
  proof
    assume "end_of data = - 1"
    then have e: "bytes_find data EOI (start_of data + 2) = - 1" by (simp add: end_of_def)
    from s0 sj have "nat (start_of data + 2) \<le> j" by linarith
    from bytes_find_none [OF _ e _ this] s0 assms(2) show False by (simp add: EOI_def)
  qed
  with s show ?thesis by (simp add: complete_def)
qed

lemma complete_iff: "complete data \<longleftrightarrow> has_complete_pair data"
  using complete_imp_pair pair_imp_complete unfolding has_complete_pair_iff by blast



text \<open>Bytes that arrive later do not change a frame that is already complete.\<close>

lemma complete_append:
  assumes "complete a"
  shows "complete (a @ b)" and "frame_of (a @ b) = frame_of a"
    and "rest_of (a @ b) = rest_of a @ b"
proof -
  note bd = complete_bounds [OF assms]
  from assms have s: "bytes_find a SOI 0 \<noteq> - 1"
    and e: "bytes_find a EOI (start_of a + 2) \<noteq> - 1"
    by (simp_all add: complete_def start_of_def end_of_def)
  from bytes_find_append [OF _ s] have st: "start_of (a @ b) = start_of a"
    by (simp add: start_of_def)
  from bd(1) have "0 \<le> start_of a + 2" by simp
  from bytes_find_append [OF this e] st have en: "end_of (a @ b) = end_of a"
    by (simp add: end_of_def)
  from assms st en show c: "complete (a @ b)" by (simp add: complete_def)
  from bd(1,2,3) have le: "nat (end_of a) + 2 \<le> length a" by linarith
  from bd(1,2) have le2: "nat (start_of a) \<le> nat (end_of a) + 2" by linarith
  from le le2 show "frame_of (a @ b) = frame_of a"
    by (simp add: frame_of_eq [OF c] frame_of_eq [OF assms] st en)
  from le show "rest_of (a @ b) = rest_of a @ b"
    by (simp add: rest_of_eq [OF c] rest_of_eq [OF assms] st en)
qed



lemma inner_loop_idle:
  "inner_loop c k data = (evs, Normal, k', data') \<Longrightarrow> \<not> complete data'"
proof (induction c k data arbitrary: evs rule: inner_loop.induct)
  case (1 c k data)
  show ?case
  proof (cases "complete data")
    case False
    with "1.prems" show ?thesis by (simp add: inner_loop_incomplete)
  next
    case True
    from True have g: "bytes_find data SOI 0 \<noteq> - 1 \<and> bytes_find data EOI (bytes_find data SOI 0 + 2) \<noteq> - 1"
      by (simp add: complete_def start_of_def end_of_def)
    have r: "bytes_slice_from data (bytes_find data EOI (bytes_find data SOI 0 + 2) + 2) = rest_of data"
      by (simp add: rest_of_def end_of_def start_of_def)
    show ?thesis
    proof (cases "c k")
      case Next
      obtain evs1 where "inner_loop c (Suc k) (rest_of data) = (evs1, Normal, k', data')"
        using "1.prems" True Next
        by (subst (asm) inner_loop_unfold) (auto split: prod.splits)
      from "1.IH" [OF refl refl g refl refl Next, unfolded r, OF this] show ?thesis .
    next
      case Close
      with "1.prems" True show ?thesis by (subst (asm) inner_loop_unfold) simp
    next
      case Throw
      with "1.prems" True show ?thesis by (subst (asm) inner_loop_unfold) simp
    qed
  qed
qed

lemma inner_loop_induct [case_names step]:
  assumes "\<And>c k data. (complete data \<Longrightarrow> c k = Next \<Longrightarrow> P c (Suc k) (rest_of data)) \<Longrightarrow> P c k data"
  shows "P c k data"
proof (induction c k data rule: inner_loop.induct)
  case (1 c k data)
  show ?case
  proof (rule assms)
    assume cd: "complete data" and n: "c k = Next"
    from cd have g: "bytes_find data SOI 0 \<noteq> - 1 \<and> bytes_find data EOI (bytes_find data SOI 0 + 2) \<noteq> - 1"
      by (simp add: complete_def start_of_def end_of_def)
    have r: "bytes_slice_from data (bytes_find data EOI (bytes_find data SOI 0 + 2) + 2) = rest_of data"
      by (simp add: rest_of_def end_of_def start_of_def)
    from "1.IH" [OF refl refl g refl refl n] show "P c (Suc k) (rest_of data)"
      unfolding r .
  qed
qed

lemma inner_loop_next:
  assumes "complete data" and "c k = Next"
  shows "inner_loop c k data =
    (Yield (part (frame_of data)) # fst (inner_loop c (Suc k) (rest_of data)),
     snd (inner_loop c (Suc k) (rest_of data)))"
  using assms by (subst inner_loop_unfold) (simp split: prod.splits)

lemma inner_loop_close:
  assumes "complete data" and "c k = Close"
  shows "inner_loop c k data = ([Yield (part (frame_of data))], Generator_exit, Suc k, rest_of data)"
  using assms by (subst inner_loop_unfold) simp

lemma inner_loop_throw:
  assumes "complete data" and "c k = Throw"
  shows "inner_loop c k data = ([Yield (part (frame_of data))], Thrown, Suc k, rest_of data)"
  using assms by (subst inner_loop_unfold) simp

text \<open>Scanning a buffer that has grown: what was found before is found again.\<close>

lemma inner_loop_append:
  "inner_loop c k a = (evs, x, k', a') \<Longrightarrow>
   inner_loop c k (a @ b) =
     (if x = Normal
      then (evs @ fst (inner_loop c k' (a' @ b)), snd (inner_loop c k' (a' @ b)))
      else (evs, x, k', a' @ b))"
proof (induction c k a arbitrary: evs rule: inner_loop_induct)
  case (step c k data)
  show ?case
  proof (cases "complete data")
    case False
    with step.prems have "evs = []" and "x = Normal" and "k' = k" and "a' = data"
      by (simp_all add: inner_loop_incomplete)
    then show ?thesis by simp
  next
    case True
    note ca = complete_append [OF True, of b]
    show ?thesis
    proof (cases "c k")
      case Next
      let ?r = "inner_loop c (Suc k) (rest_of data)"
      from step.prems have e: "evs = Yield (part (frame_of data)) # fst ?r"
        and r: "?r = (fst ?r, x, k', a')"
        by (simp_all add: inner_loop_next [where c = c and k = k, OF True Next] prod_eq_iff)
      from step.IH [OF True Next r]
      have ih: "inner_loop c (Suc k) (rest_of data @ b) =
        (if x = Normal
         then (fst ?r @ fst (inner_loop c k' (a' @ b)), snd (inner_loop c k' (a' @ b)))
         else (fst ?r, x, k', a' @ b))" .
      show ?thesis
        by (simp add: inner_loop_next [where c = c and k = k, OF ca(1) Next] ca(2,3) ih e)
    next
      case Close
      with step.prems True ca show ?thesis
        by (auto simp add: inner_loop_close)
    next
      case Throw
      with step.prems True ca show ?thesis
        by (auto simp add: inner_loop_throw)
    qed
  qed
qed

subsection \<open>Spans\<close>

lemma occurs_at_length:
  assumes "occurs_at x sub j" and "sub \<noteq> []"
  shows "j + length sub \<le> length x"
proof -
  from assms(1) have "length (take (length sub) (drop j x)) = length sub"
    by (simp add: occurs_at_def)
  then have "length sub \<le> length x - j" by simp
  moreover from assms(2) have "0 < length sub" by simp
  ultimately show ?thesis by linarith
qed

lemma occurs_at_append:
  assumes "j + length sub \<le> length x"
  shows "occurs_at (x @ y) sub j = occurs_at x sub j"
proof -
  from assms have "length sub \<le> length (drop j x)" by simp
  then have "take (length sub) (drop j x @ y) = take (length sub) (drop j x)"
    by (rule take_append_le)
  with assms show ?thesis by (simp add: occurs_at_def)
qed

lemma occurs_at_drop: "occurs_at (drop s x) sub j = occurs_at x sub (s + j)"
  by (simp add: occurs_at_def add.commute)

lemma occurs_at_take:
  assumes "j + length sub \<le> n"
  shows "occurs_at (take n x) sub j = occurs_at x sub j"
proof -
  from assms have "min (length sub) (n - j) = length sub" by simp
  then show ?thesis by (simp add: occurs_at_def drop_take)
qed

lemma filter_upt_single:
  assumes "m < n" and "P m" and "\<forall>j<n. P j \<longrightarrow> j = m"
  shows "filter P [0..<n] = [m]"
proof -
  have s: "set (filter P [0..<n]) = set [m]"
  proof (rule equalityI)
    show "set (filter P [0..<n]) \<subseteq> set [m]" using assms(3) by auto
    show "set [m] \<subseteq> set (filter P [0..<n])" using assms(1,2) by simp
  qed
  have "sorted (filter P [0..<n])" by (rule sorted_wrt_filter) simp
  moreover have "distinct (filter P [0..<n])" by simp
  moreover have "sorted [m]" and "distinct [m]" by simp_all
  ultimately show ?thesis using s by (rule sorted_distinct_set_unique)
qed

lemma is_span_iff:
  "is_span f \<longleftrightarrow>
     take 2 f = SOI \<and> occurs_at f EOI (length f - 2) \<and>
     (\<forall>j. occurs_at f EOI j \<longrightarrow> j = length f - 2)"
proof
  assume sp: "is_span f"
  then have t: "take 2 f = SOI" and m: "marker_positions f EOI = [length f - 2]"
    by (simp_all add: is_span_def)
  have e: "occurs_at f EOI j \<longleftrightarrow> j \<in> set [length f - 2]" for j
    using EOI_positions [of j f] unfolding m by (rule sym)
  from e [of "length f - 2"] have "occurs_at f EOI (length f - 2)" by simp
  moreover have "\<forall>j. occurs_at f EOI j \<longrightarrow> j = length f - 2"
    unfolding e by simp
  ultimately show "take 2 f = SOI \<and> occurs_at f EOI (length f - 2) \<and>
     (\<forall>j. occurs_at f EOI j \<longrightarrow> j = length f - 2)" using t by blast
next
  assume a: "take 2 f = SOI \<and> occurs_at f EOI (length f - 2) \<and>
     (\<forall>j. occurs_at f EOI j \<longrightarrow> j = length f - 2)"
  then have o: "occurs_at f EOI (length f - 2)"
    and u: "\<forall>j<length f. occurs_at f EOI j \<longrightarrow> j = length f - 2" by blast+
  from occurs_at_length [OF o] have "length f - 2 < length f" by (simp add: EOI_def)
  from filter_upt_single [OF this o u]
  have "marker_positions f EOI = [length f - 2]" by (simp add: marker_positions_def)
  with a show "is_span f" by (simp add: is_span_def)
qed

lemma is_span_length:
  assumes "is_span f"
  shows "4 \<le> length f"
proof -
  from assms have t: "take 2 f = SOI" and o: "occurs_at f EOI (length f - 2)"
    by (simp_all add: is_span_iff)
  from t have s: "occurs_at f SOI 0" by (simp add: occurs_at_def SOI_def numeral_2_eq_2)
  have "length f - 2 \<noteq> 0"
  proof
    assume "length f - 2 = 0"
    with o have "take 2 f = EOI" by (simp add: occurs_at_def EOI_def numeral_2_eq_2)
    with t show False by (simp add: SOI_def EOI_def)
  qed
  then have "0 < length f - 2" by simp
  from end_after_start [OF s o this] show ?thesis by simp
qed

text \<open>A span at the head of the buffer is the frame the scan slices out.\<close>

lemma span_at_head:
  assumes "is_span f"
  shows "complete (f @ d)" and "frame_of (f @ d) = f" and "rest_of (f @ d) = d"
proof -
  from assms have t: "take 2 f = SOI" and o: "occurs_at f EOI (length f - 2)"
    and u: "\<And>j. occurs_at f EOI j \<Longrightarrow> j = length f - 2"
    by (simp_all add: is_span_iff)
  note len = is_span_length [OF assms]
  from t len have "occurs_at (f @ d) SOI 0" by (simp add: occurs_at_def SOI_def numeral_2_eq_2)
  then have st: "start_of (f @ d) = 0"
    unfolding start_of_def using bytes_find_eqI [of 0 SOI 0 "f @ d"] by (simp add: SOI_def)
  have oe: "occurs_at (f @ d) EOI (length f - 2)"
    using o len by (subst occurs_at_append) (simp_all add: EOI_def)
  have none: "\<not> occurs_at (f @ d) EOI i" if "nat 2 \<le> i" and "i < length f - 2" for i
  proof
    assume "occurs_at (f @ d) EOI i"
    moreover from that have "i + length EOI \<le> length f" by (simp add: EOI_def)
    ultimately have "occurs_at f EOI i" by (simp add: occurs_at_append)
    from u [OF this] that show False by simp
  qed
  from len have "nat 2 \<le> length f - 2" by simp
  from bytes_find_eqI [OF _ _ this oe none]
  have en: "end_of (f @ d) = int (length f - 2)"
    by (simp add: end_of_def st EOI_def)
  from st en show c: "complete (f @ d)" by (simp add: complete_def)
  from len show "frame_of (f @ d) = f"
    by (simp add: frame_of_eq [OF c] st en)
  from len show "rest_of (f @ d) = d"
    by (simp add: rest_of_eq [OF c] st en)
qed

text \<open>What the scan slices out is a span, and no start marker lies before it.\<close>

lemma frame_is_span:
  assumes "complete data"
  shows "is_span (frame_of data)"
proof -
  note b = complete_bounds [OF assms]
  let ?s = "nat (start_of data)" and ?e = "nat (end_of data)"
  let ?n = "?e + 2 - ?s"
  let ?f = "frame_of data"
  from b(1,2,3) have se: "?s + 2 \<le> ?e" and el: "?e + 2 \<le> length data" by linarith+
  have f: "?f = take ?n (drop ?s data)" by (rule frame_of_eq [OF assms])
  from se el have lf: "length ?f = ?n" by (simp add: f)
  have occ: "occurs_at ?f sub j = occurs_at data sub (?s + j)" if "j + length sub \<le> ?n" for sub j
    unfolding f using that by (simp add: occurs_at_take occurs_at_drop)
  from b(4) se have "occurs_at ?f SOI 0" by (simp add: occ SOI_def)
  then have t: "take 2 ?f = SOI" by (simp add: occurs_at_def SOI_def numeral_2_eq_2)
  from se have ne: "?s + (?n - 2) = ?e" by simp
  from b(5) se have o: "occurs_at ?f EOI (?n - 2)" by (simp add: occ EOI_def ne)
  have u: "j = ?n - 2" if oj: "occurs_at ?f EOI j" for j
  proof -
    from occurs_at_length [OF oj] lf have jl: "j + 2 \<le> ?n" by (simp add: EOI_def)
    with oj have od: "occurs_at data EOI (?s + j)" by (simp add: occ EOI_def)
    have "?s < ?s + j"
    proof (rule ccontr)
      assume "\<not> ?s < ?s + j"
      then have "j = 0" by simp
      with oj have "take 2 ?f = EOI" by (simp add: occurs_at_def EOI_def numeral_2_eq_2)
      with t show False by (simp add: SOI_def EOI_def)
    qed
    from end_after_start [OF b(4) od this] have j2: "2 \<le> j" by simp
    have "\<not> int (?s + j) < end_of data"
    proof
      assume lt: "int (?s + j) < end_of data"
      from b(1) j2 have "nat (start_of data + 2) \<le> ?s + j" by linarith
      from bytes_find_first [OF _ this lt [unfolded end_of_def]] b(1) od show False by simp
    qed
    with b(1,2) have "?e \<le> ?s + j" by linarith
    with jl se show ?thesis by linarith
  qed
  have "\<forall>j. occurs_at ?f EOI j \<longrightarrow> j = length ?f - 2" using u lf by simp
  moreover have "occurs_at ?f EOI (length ?f - 2)" using o lf by simp
  ultimately show ?thesis using t unfolding is_span_iff by blast
qed

lemma no_start_before_frame:
  assumes "complete data"
  shows "marker_positions (take (nat (start_of data)) data) SOI = []"
proof -
  note b = complete_bounds [OF assms]
  let ?g = "take (nat (start_of data)) data"
  have "\<not> occurs_at ?g SOI i" for i
  proof
    assume o: "occurs_at ?g SOI i"
    from occurs_at_length [OF o] have l: "i + length SOI \<le> nat (start_of data)"
      by (simp add: SOI_def)
    with o have od: "occurs_at data SOI i" by (simp add: occurs_at_take)
    from l b(1) have "int i < bytes_find data SOI 0" by (simp add: start_of_def SOI_def)
    from bytes_find_first [OF _ _ this] od show False by simp
  qed
  then show ?thesis by (simp add: marker_positions_def)
qed

subsection \<open>The whole boundary scan\<close>

lemma not_complete_Nil: "\<not> complete []"
  by (simp add: complete_def start_of_def bytes_find_def SOI_def)

lemma inner_loop_Nil: "inner_loop c k [] = ([], Normal, k, [])"
  by (rule inner_loop_incomplete [OF not_complete_Nil])

text \<open>
  The scan cuts the buffer into gaps and frames, in order: each frame is a span, no gap
  holds a start marker, and what is left is the rest of the buffer.
\<close>

lemma inner_loop_frames:
  "inner_loop c k data = (evs, x, k', rest) \<Longrightarrow>
   \<exists>fs gs. length gs = length fs \<and> evs = map (\<lambda>f. Yield (part f)) fs \<and>
     k' = k + length fs \<and> data = concat (map2 (@) gs fs) @ rest \<and>
     (\<forall>f\<in>set fs. is_span f) \<and> (\<forall>g\<in>set gs. marker_positions g SOI = []) \<and>
     (x = Normal \<or> (fs \<noteq> [] \<and> (x = Generator_exit \<or> x = Thrown)))"
proof (induction c k data arbitrary: evs rule: inner_loop_induct)
  case (step c k data)
  show ?case
  proof (cases "complete data")
    case False
    with step.prems have "evs = []" and "x = Normal" and "k' = k" and "rest = data"
      by (simp_all add: inner_loop_incomplete)
    then have "length ([]::bytes list) = length ([]::bytes list) \<and>
      evs = map (\<lambda>f. Yield (part f)) [] \<and>
      k' = k + length ([]::bytes list) \<and> data = concat (map2 (@) [] []) @ rest \<and>
      (\<forall>f\<in>set []. is_span f) \<and> (\<forall>g\<in>set []. marker_positions g SOI = []) \<and>
      (x = Normal \<or> (([]::bytes list) \<noteq> [] \<and> (x = Generator_exit \<or> x = Thrown)))"
      by simp
    then show ?thesis by blast
  next
    case True
    let ?g = "take (nat (start_of data)) data"
    let ?f = "frame_of data"
    have sp: "is_span ?f" by (rule frame_is_span [OF True])
    have ng: "marker_positions ?g SOI = []" by (rule no_start_before_frame [OF True])
    have dec: "data = ?g @ ?f @ rest_of data" by (rule split_at_frame [OF True])
    show ?thesis
    proof (cases "c k")
      case Next
      let ?r = "inner_loop c (Suc k) (rest_of data)"
      from step.prems have e: "evs = Yield (part ?f) # fst ?r"
        and r: "?r = (fst ?r, x, k', rest)"
        by (simp_all add: inner_loop_next [where c = c and k = k, OF True Next] prod_eq_iff)
      from step.IH [OF True Next r] obtain fs gs where
        l: "length gs = length fs" and ev: "fst ?r = map (\<lambda>f. Yield (part f)) fs"
        and k: "k' = Suc k + length fs" and d: "rest_of data = concat (map2 (@) gs fs) @ rest"
        and s: "\<forall>f\<in>set fs. is_span f" and g: "\<forall>g\<in>set gs. marker_positions g SOI = []"
        and x: "x = Normal \<or> (fs \<noteq> [] \<and> (x = Generator_exit \<or> x = Thrown))"
        by blast
      from dec d have "data = concat (map2 (@) (?g # gs) (?f # fs)) @ rest" by simp
      moreover from l have "length (?g # gs) = length (?f # fs)" by simp
      moreover from e ev have "evs = map (\<lambda>f. Yield (part f)) (?f # fs)" by simp
      moreover from k have "k' = k + length (?f # fs)" by simp
      moreover from s sp have "\<forall>f\<in>set (?f # fs). is_span f" by simp
      moreover from g ng have "\<forall>g\<in>set (?g # gs). marker_positions g SOI = []" by simp
      moreover from x have "x = Normal \<or> (?f # fs \<noteq> [] \<and> (x = Generator_exit \<or> x = Thrown))"
        by blast
      ultimately show ?thesis by blast
    next
      case Close
      from step.prems have "evs = [Yield (part ?f)]" and "x = Generator_exit"
        and "k' = Suc k" and "rest = rest_of data"
        by (simp_all add: inner_loop_close [where c = c and k = k, OF True Close])
      with dec sp ng have "length [?g] = length [?f] \<and> evs = map (\<lambda>f. Yield (part f)) [?f] \<and>
        k' = k + length [?f] \<and> data = concat (map2 (@) [?g] [?f]) @ rest \<and>
        (\<forall>f\<in>set [?f]. is_span f) \<and> (\<forall>g\<in>set [?g]. marker_positions g SOI = []) \<and>
        (x = Normal \<or> ([?f] \<noteq> [] \<and> (x = Generator_exit \<or> x = Thrown)))"
        by simp
      then show ?thesis by blast
    next
      case Throw
      from step.prems have "evs = [Yield (part ?f)]" and "x = Thrown"
        and "k' = Suc k" and "rest = rest_of data"
        by (simp_all add: inner_loop_throw [where c = c and k = k, OF True Throw])
      with dec sp ng have "length [?g] = length [?f] \<and> evs = map (\<lambda>f. Yield (part f)) [?f] \<and>
        k' = k + length [?f] \<and> data = concat (map2 (@) [?g] [?f]) @ rest \<and>
        (\<forall>f\<in>set [?f]. is_span f) \<and> (\<forall>g\<in>set [?g]. marker_positions g SOI = []) \<and>
        (x = Normal \<or> ([?f] \<noteq> [] \<and> (x = Generator_exit \<or> x = Thrown)))"
        by simp
      then show ?thesis by blast
    qed
  qed
qed

text \<open>A buffer made of spans is cut into exactly these spans.\<close>

lemma inner_loop_spans:
  assumes "\<forall>n. c n = Next"
  shows "\<forall>f\<in>set fs. is_span f \<Longrightarrow>
    inner_loop c k (concat fs @ d) =
      (map (\<lambda>f. Yield (part f)) fs @ fst (inner_loop c (k + length fs) d),
       snd (inner_loop c (k + length fs) d))"
proof (induction fs arbitrary: k)
  case Nil
  show ?case by simp
next
  case (Cons f fs)
  from Cons.prems have sp: "is_span f" and rest: "\<forall>f\<in>set fs. is_span f" by simp_all
  note h = span_at_head [OF sp, of "concat fs @ d"]
  from assms have n: "c k = Next" by simp
  have "inner_loop c k (f @ concat fs @ d) =
    (Yield (part f) # fst (inner_loop c (Suc k) (concat fs @ d)),
     snd (inner_loop c (Suc k) (concat fs @ d)))"
    using inner_loop_next [where c = c and k = k, OF h(1) n] by (simp add: h(2,3))
  with Cons.IH [OF rest, of "Suc k"] show ?case by simp
qed

subsection \<open>The read loop\<close>

lemma yielded_append: "yielded (a @ b) = yielded a @ yielded b"
  by (induction a rule: yielded.induct) simp_all

lemma yielded_frames: "yielded (map (\<lambda>f. Yield (part f)) fs) = map part fs"
  by (induction fs) simp_all

lemma outer_loop_chunk:
  assumes "chunk \<noteq> []" and "inner_loop c k (data @ chunk) = (evs, x, k', data')"
  shows "outer_loop c (Chunk chunk # src) k data =
    (if x = Normal
     then (Read 4096 # evs @ fst (outer_loop c src k' data'), snd (outer_loop c src k' data'))
     else (Read 4096 # evs, x, k', data'))"
  using assms by (cases x) (simp_all split: prod.splits)

text \<open>
  Reading a buffer chunk by chunk and scanning it whole yield the same frames; when the
  loop ends by an empty read, they leave the same buffer behind.
\<close>

lemma outer_loop_chunks:
  assumes eof: "\<And>k data. outer_loop c src k data = ([Read 4096], Normal, k, data)"
  shows "[] \<notin> set chunks \<Longrightarrow> \<not> complete data \<Longrightarrow>
    inner_loop c k (data @ concat chunks) = (evsW, x, k', d') \<Longrightarrow>
    \<exists>evs dR. outer_loop c (map Chunk chunks @ src) k data = (evs, x, k', dR) \<and>
      yielded evs = yielded evsW \<and>
      (x = Normal \<longrightarrow> dR = d' \<and> (\<exists>evs'. evs = evs' @ [Read 4096]))"
proof (induction chunks arbitrary: k data evsW)
  case Nil
  from Nil.prems(2,3) have "evsW = []" and "x = Normal" and "k' = k" and "d' = data"
    by (simp_all add: inner_loop_incomplete)
  then have "outer_loop c (map Chunk [] @ src) k data = ([Read 4096], x, k', data) \<and>
    yielded [Read 4096] = yielded evsW \<and>
    (x = Normal \<longrightarrow> data = d' \<and> (\<exists>evs'. [Read 4096] = evs' @ [Read 4096]))"
    by (simp add: eof)
  then show ?case by blast
next
  case (Cons ch chs)
  from Cons.prems(1) have ne: "ch \<noteq> []" and nes: "[] \<notin> set chs" by auto
  obtain e1 x1 k1 d1 where i1: "inner_loop c k (data @ ch) = (e1, x1, k1, d1)"
    by (cases "inner_loop c k (data @ ch)") blast
  note app = inner_loop_append [OF i1, of "concat chs"]
  note step = outer_loop_chunk [OF ne i1, of "map Chunk chs @ src"]
  show ?case
  proof (cases "x1 = Normal")
    case True
    from i1 True have idle: "\<not> complete d1" by (simp add: inner_loop_idle)
    obtain e2 where i2: "inner_loop c k1 (d1 @ concat chs) = (e2, x, k', d')"
      and ew: "evsW = e1 @ e2"
      using Cons.prems(3) app True by (cases "inner_loop c k1 (d1 @ concat chs)") simp
    from Cons.IH [OF nes idle i2] obtain evs dR where
      o: "outer_loop c (map Chunk chs @ src) k1 d1 = (evs, x, k', dR)"
      and y: "yielded evs = yielded e2"
      and n: "x = Normal \<longrightarrow> dR = d' \<and> (\<exists>evs'. evs = evs' @ [Read 4096])"
      by blast
    from step True o
    have r: "outer_loop c (map Chunk (ch # chs) @ src) k data = (Read 4096 # e1 @ evs, x, k', dR)"
      by simp
    have "yielded (Read 4096 # e1 @ evs) = yielded evsW"
      by (simp add: yielded_append y ew)
    moreover have "x = Normal \<longrightarrow> dR = d' \<and> (\<exists>evs'. Read 4096 # e1 @ evs = evs' @ [Read 4096])"
    proof
      assume "x = Normal"
      with n obtain evs' where "dR = d'" and "evs = evs' @ [Read 4096]" by blast
      then have "dR = d'" and "Read 4096 # e1 @ evs = (Read 4096 # e1 @ evs') @ [Read 4096]"
        by simp_all
      then show "dR = d' \<and> (\<exists>evs'. Read 4096 # e1 @ evs = evs' @ [Read 4096])" by blast
    qed
    ultimately show ?thesis using r by blast
  next
    case False
    from Cons.prems(3) app False have "evsW = e1" and "x = x1" and "k' = k1"
      by simp_all
    with step False
    have "outer_loop c (map Chunk (ch # chs) @ src) k data = (Read 4096 # e1, x, k', d1) \<and>
      yielded (Read 4096 # e1) = yielded evsW \<and>
      (x = Normal \<longrightarrow> d1 = d' \<and> (\<exists>evs'. Read 4096 # e1 = evs' @ [Read 4096]))"
      by simp
    then show ?thesis by blast
  qed
qed

text \<open>
  The state in which the loop goes into a read: when the chunks read so far were all
  scanned to the end, the run goes on from the count and the buffer they left, whatever
  the reads that follow return.
\<close>

lemma outer_loop_continue:
  "[] \<notin> set chunks \<Longrightarrow>
   outer_loop c (map Chunk chunks) k data = (evs, Normal, k', d') \<Longrightarrow>
   \<exists>evs0. evs = evs0 @ [Read 4096] \<and>
     outer_loop c (map Chunk chunks @ src) k data =
       (evs0 @ fst (outer_loop c src k' d'), snd (outer_loop c src k' d'))"
proof (induction chunks arbitrary: k data evs)
  case Nil
  then have "evs = [] @ [Read 4096]" and "k' = k" and "d' = data" by simp_all
  then have "evs = [] @ [Read 4096] \<and>
     outer_loop c (map Chunk [] @ src) k data =
       ([] @ fst (outer_loop c src k' d'), snd (outer_loop c src k' d'))"
    by simp
  then show ?case by blast
next
  case (Cons ch chs)
  from Cons.prems(1) have ne: "ch \<noteq> []" and nes: "[] \<notin> set chs" by auto
  obtain e1 x1 k1 d1 where i1: "inner_loop c k (data @ ch) = (e1, x1, k1, d1)"
    by (cases "inner_loop c k (data @ ch)") blast
  note step = outer_loop_chunk [OF ne i1]
  have x1: "x1 = Normal"
  proof (rule ccontr)
    assume "x1 \<noteq> Normal"
    with step [of "map Chunk chs"] Cons.prems(2) show False by simp
  qed
  obtain e2 where o2: "outer_loop c (map Chunk chs) k1 d1 = (e2, Normal, k', d')"
    and ev: "evs = Read 4096 # e1 @ e2"
    using step [of "map Chunk chs"] Cons.prems(2) x1
    by (cases "outer_loop c (map Chunk chs) k1 d1") simp
  from Cons.IH [OF nes o2] obtain e0 where e2: "e2 = e0 @ [Read 4096]"
    and r: "outer_loop c (map Chunk chs @ src) k1 d1 =
       (e0 @ fst (outer_loop c src k' d'), snd (outer_loop c src k' d'))"
    by blast
  from step [of "map Chunk chs @ src"] x1 r
  have "outer_loop c (map Chunk (ch # chs) @ src) k data =
       ((Read 4096 # e1 @ e0) @ fst (outer_loop c src k' d'), snd (outer_loop c src k' d'))"
    by simp
  moreover from ev e2 have "evs = (Read 4096 # e1 @ e0) @ [Read 4096]" by simp
  ultimately show ?case by blast
qed

text \<open>
  What the read loop does: reads and yields of well-formed parts only; it ends after a read
  when left normally or by a read error, and after a yield when the consumer ended it.
\<close>

lemma outer_loop_events:
  "outer_loop c src k data = (evs, x, k', d') \<Longrightarrow>
     (\<forall>ev\<in>set evs. ev = Read 4096 \<or> (\<exists>f. ev = Yield (part f) \<and> is_span f)) \<and>
     (x = Normal \<or> x = Read_error \<or> x = Generator_exit \<or> x = Thrown) \<and>
     (x = Normal \<or> x = Read_error \<longrightarrow> (\<exists>evs'. evs = evs' @ [Read 4096])) \<and>
     (x = Generator_exit \<or> x = Thrown \<longrightarrow> (\<exists>evs' b. evs = evs' @ [Yield b]))"
proof (induction src arbitrary: k data evs)
  case Nil
  then have "evs = [] @ [Read 4096]" and "x = Normal" by simp_all
  then show ?case by auto
next
  case (Cons r src)
  show ?case
  proof (cases r)
    case Read_fails
    with Cons.prems have "evs = [] @ [Read 4096]" and "x = Read_error" by simp_all
    then show ?thesis by auto
  next
    case (Chunk ch)
    show ?thesis
    proof (cases "ch = []")
      case True
      with Chunk Cons.prems have "evs = [] @ [Read 4096]" and "x = Normal" by simp_all
      then show ?thesis by auto
    next
      case False
      obtain e1 x1 k1 d1 where i1: "inner_loop c k (data @ ch) = (e1, x1, k1, d1)"
        by (cases "inner_loop c k (data @ ch)") blast
      from inner_loop_frames [OF i1] obtain fs where
        e1: "e1 = map (\<lambda>f. Yield (part f)) fs" and sp: "\<forall>f\<in>set fs. is_span f"
        and x1: "x1 = Normal \<or> (fs \<noteq> [] \<and> (x1 = Generator_exit \<or> x1 = Thrown))"
        by blast
      from e1 sp have ev1: "\<forall>ev\<in>set e1. ev = Read 4096 \<or> (\<exists>f. ev = Yield (part f) \<and> is_span f)"
        by auto
      note step = outer_loop_chunk [OF False i1, of src]
      show ?thesis
      proof (cases "x1 = Normal")
        case True
        obtain e2 where o2: "outer_loop c src k1 d1 = (e2, x, k', d')"
          and ev: "evs = Read 4096 # e1 @ e2"
          using Cons.prems Chunk step True by (cases "outer_loop c src k1 d1") simp
        note ih = Cons.IH [OF o2]
        from ih ev1 ev
        have a: "\<forall>ev\<in>set evs. ev = Read 4096 \<or> (\<exists>f. ev = Yield (part f) \<and> is_span f)"
          by auto
        from ih have b: "x = Normal \<or> x = Read_error \<or> x = Generator_exit \<or> x = Thrown"
          by blast
        have c: "x = Normal \<or> x = Read_error \<longrightarrow> (\<exists>evs'. evs = evs' @ [Read 4096])"
        proof
          assume "x = Normal \<or> x = Read_error"
          with ih obtain evs' where "e2 = evs' @ [Read 4096]" by blast
          with ev have "evs = (Read 4096 # e1 @ evs') @ [Read 4096]" by simp
          then show "\<exists>evs'. evs = evs' @ [Read 4096]" by blast
        qed
        have d: "x = Generator_exit \<or> x = Thrown \<longrightarrow> (\<exists>evs' b. evs = evs' @ [Yield b])"
        proof
          assume "x = Generator_exit \<or> x = Thrown"
          with ih obtain evs' b where "e2 = evs' @ [Yield b]" by blast
          with ev have "evs = (Read 4096 # e1 @ evs') @ [Yield b]" by simp
          then show "\<exists>evs' b. evs = evs' @ [Yield b]" by blast
        qed
        from a b c d show ?thesis by blast
      next
        case nn: False
        from Cons.prems Chunk step nn have ev: "evs = Read 4096 # e1" and xx: "x = x1"
          by simp_all
        from nn x1 have fne: "fs \<noteq> []" and xc: "x1 = Generator_exit \<or> x1 = Thrown" by blast+
        from fne e1 have "e1 = map (\<lambda>f. Yield (part f)) (butlast fs) @ [Yield (part (last fs))]"
          by (metis append_butlast_last_id list.simps(8,9) map_append)
        with ev have l: "evs = (Read 4096 # map (\<lambda>f. Yield (part f)) (butlast fs)) @ [Yield (part (last fs))]"
          by simp
        from ev ev1
        have a: "\<forall>ev\<in>set evs. ev = Read 4096 \<or> (\<exists>f. ev = Yield (part f) \<and> is_span f)"
          by auto
        from l have d: "\<exists>evs' b. evs = evs' @ [Yield b]" by blast
        from xx xc have "x = Generator_exit \<or> x = Thrown" by simp
        with a d show ?thesis by auto
      qed
    qed
  qed
qed

section \<open>The claims\<close>

subsection \<open>Running the generator\<close>

lemma generate_frames_found:
  assumes "query_stream (db e) stream_id = Inr (Some (u, q, r, f))" and "can_launch e"
  shows "generate_frames e stream_id =
    \<lparr>trace = Popen (command u q r f) # fst (outer_loop (consumer e) (source e) 0 []) @ [Kill, Wait],
     exit = fst (snd (outer_loop (consumer e) (source e) 0 []))\<rparr>"
  using assms by (simp add: generate_frames_def split: prod.splits)

lemma generate_frames_absent:
  assumes "query_stream (db e) stream_id = Inr None"
  shows "generate_frames e stream_id = \<lparr>trace = [], exit = Normal\<rparr>"
  using assms by (simp add: generate_frames_def)

lemma generate_frames_overflow:
  assumes "query_stream (db e) stream_id = Inl err"
  shows "generate_frames e stream_id = \<lparr>trace = [], exit = Overflow_error\<rparr>"
  using assms by (cases err) (simp add: generate_frames_def)

lemma generate_frames_no_launch:
  assumes "query_stream (db e) stream_id = Inr (Some cfg)" and "\<not> can_launch e"
  shows "generate_frames e stream_id = \<lparr>trace = [], exit = Launch_error\<rparr>"
  using assms by (cases cfg) (simp add: generate_frames_def)

lemma query_stream_overflow: "query_stream tbl i = Inl err \<longleftrightarrow> \<not> sqlite_int i"
  by (cases err) (simp add: query_stream_def split: list.splits)



text \<open>
  C2 (as amended). For a stream id that does not resolve to a stored row no not-found
  failure is reported: \<open>video_feed\<close> returns an ordinary response, of status 200 and mimetype
  \<open>multipart/x-mixed-replace; boundary=frame\<close>. When its body is iterated the generator does
  nothing that can be seen: no decoder process is launched, no read is made and no chunk is
  yielded. It returns at once when the id fits a signed 64-bit integer, and ends with the
  \<open>OverflowError\<close> of the lookup when it does not.
\<close>

theorem video_feed_unknown_stream:
  assumes "\<And>cfg. query_stream (db e) stream_id \<noteq> Inr (Some cfg)"
  shows "status (video_feed e stream_id) = 200 \<and>
    mimetype (video_feed e stream_id) = ''multipart/x-mixed-replace; boundary=frame'' \<and>
    trace (body (video_feed e stream_id)) = [] \<and>
    yielded (trace (body (video_feed e stream_id))) = [] \<and>
    launches (trace (body (video_feed e stream_id))) = 0 \<and>
    exit (body (video_feed e stream_id)) =
      (if sqlite_int stream_id then Normal else Overflow_error)"
proof (cases "query_stream (db e) stream_id")
  case (Inl err)
  from Inl have "\<not> sqlite_int stream_id" by (simp add: query_stream_overflow)
  with generate_frames_overflow [OF Inl] show ?thesis by (simp add: video_feed_def)
next
  case (Inr found)
  have "found = None"
  proof (cases found)
    case None
    then show ?thesis .
  next
    case (Some cfg)
    with Inr assms [of cfg] show ?thesis by simp
  qed
  with Inr have n: "query_stream (db e) stream_id = Inr None" by simp
  have "sqlite_int stream_id"
  proof (rule ccontr)
    assume "\<not> sqlite_int stream_id"
    then have "query_stream (db e) stream_id = Inl OverflowError"
      by (simp add: query_stream_overflow)
    with n show False by simp
  qed
  with generate_frames_absent [OF n] show ?thesis by (simp add: video_feed_def)
qed

theorem video_feed_unknown_stream_witness:
  "query_stream (db \<lparr>db = one_camera, can_launch = True, source = [], consumer = take_all\<rparr>) 7 =
     Inr None \<and>
   status (video_feed \<lparr>db = one_camera, can_launch = True, source = [], consumer = take_all\<rparr> 7) =
     200 \<and>
   mimetype (video_feed \<lparr>db = one_camera, can_launch = True, source = [], consumer = take_all\<rparr> 7) =
     ''multipart/x-mixed-replace; boundary=frame'' \<and>
   trace (body (video_feed \<lparr>db = one_camera, can_launch = True, source = [], consumer = take_all\<rparr> 7)) =
     [] \<and>
   exit (body (video_feed \<lparr>db = one_camera, can_launch = True, source = [], consumer = take_all\<rparr> 7)) =
     Normal \<and>
   query_stream (db \<lparr>db = one_camera, can_launch = True, source = [], consumer = take_all\<rparr>)
     9223372036854775808 = Inl OverflowError \<and>
   trace (body (video_feed \<lparr>db = one_camera, can_launch = True, source = [], consumer = take_all\<rparr>
     9223372036854775808)) = [] \<and>
   exit (body (video_feed \<lparr>db = one_camera, can_launch = True, source = [], consumer = take_all\<rparr>
     9223372036854775808)) = Overflow_error"
  (is "?A \<and> ?B \<and> ?C \<and> ?D \<and> ?E \<and> ?F \<and> ?G \<and> ?H")
proof -
  have h: ?A by code_simp
  then have n: "query_stream (db \<lparr>db = one_camera, can_launch = True, source = [],
      consumer = take_all\<rparr>) 7 \<noteq> Inr (Some cfg)" for cfg
    by simp
  have i: "sqlite_int 7" by (simp add: sqlite_int_def)
  note th = video_feed_unknown_stream
    [of "\<lparr>db = one_camera, can_launch = True, source = [], consumer = take_all\<rparr>" 7, OF n]
  from th have b: ?B by (elim conjE)
  from th have c: ?C by (elim conjE)
  from th have d: ?D by (elim conjE)
  from th i have e: ?E by simp
  have j: "\<not> sqlite_int 9223372036854775808" by (simp add: sqlite_int_def)
  then have f: ?F by (simp add: query_stream_def)
  then have m: "query_stream (db \<lparr>db = one_camera, can_launch = True, source = [],
      consumer = take_all\<rparr>) 9223372036854775808 \<noteq> Inr (Some cfg)" for cfg
    by simp
  note tk = video_feed_unknown_stream
    [of "\<lparr>db = one_camera, can_launch = True, source = [], consumer = take_all\<rparr>"
      9223372036854775808, OF m]
  from tk have g: ?G by (elim conjE)
  from tk j have k: ?H by simp
  from h b c d e f g k show ?thesis by (intro conjI)
qed

text \<open>
  C2 as stated fails: with stream 1 alone in the table, the request for stream 7 is
  answered with status 200, which is no failure status, and the generator ends normally.
\<close>

theorem video_feed_not_found_counterexample:
  "query_stream (db \<lparr>db = one_camera, can_launch = True, source = [], consumer = take_all\<rparr>) 7 =
     Inr None \<and>
   status (video_feed \<lparr>db = one_camera, can_launch = True, source = [], consumer = take_all\<rparr> 7) =
     200 \<and>
   \<not> 400 \<le> status (video_feed \<lparr>db = one_camera, can_launch = True, source = [],
     consumer = take_all\<rparr> 7) \<and>
   exit (body (video_feed \<lparr>db = one_camera, can_launch = True, source = [], consumer = take_all\<rparr> 7)) =
     Normal"
  by code_simp




lemma outer_loop_head: "\<exists>evs. fst (outer_loop c src k data) = Read 4096 # evs"
proof (cases src)
  case Nil
  then show ?thesis by simp
next
  case (Cons r src')
  show ?thesis
  proof (cases r)
    case Read_fails
    with Cons show ?thesis by simp
  next
    case (Chunk ch)
    show ?thesis
    proof (cases "ch = []")
      case True
      with Chunk Cons show ?thesis by simp
    next
      case False
      obtain e1 x1 k1 d1 where i1: "inner_loop c k (data @ ch) = (e1, x1, k1, d1)"
        by (cases "inner_loop c k (data @ ch)") blast
      from outer_loop_chunk [OF False i1, of src'] Chunk Cons show ?thesis
        by (cases "x1 = Normal") simp_all
    qed
  qed
qed

lemma yielded_set: "b \<in> set (yielded evs) \<longleftrightarrow> Yield b \<in> set evs"
  by (induction evs rule: yielded.induct) auto

lemma span_ends:
  assumes "is_span f"
  shows "take 2 f = SOI" and "drop (length f - 2) f = EOI" and "4 \<le> length f"
proof -
  from assms show "take 2 f = SOI" by (simp add: is_span_iff)
  show len: "4 \<le> length f" by (rule is_span_length [OF assms])
  from assms have "occurs_at f EOI (length f - 2)" by (simp add: is_span_iff)
  then have "take 2 (drop (length f - 2) f) = EOI"
    by (simp add: occurs_at_def EOI_def numeral_2_eq_2)
  moreover from len have "length (drop (length f - 2) f) = 2" by simp
  ultimately show "drop (length f - 2) f = EOI" by simp
qed

text \<open>
  C6. A buffer that holds a start marker, and in which no start marker is followed by an end
  marker, is left as it is by the boundary scan: no frame is yielded and every byte stays
  in the buffer for the next read.
\<close>

theorem start_without_end_waits:
  "marker_positions data SOI \<noteq> [] \<Longrightarrow> \<not> has_complete_pair data \<Longrightarrow>
     inner_loop c k data = ([], Normal, k, data)"
  by (simp add: inner_loop_incomplete complete_iff)

theorem start_without_end_waits_witness:
  "marker_positions [CHR 0x01, CHR 0xFF, CHR 0xD8, CHR 0xAA, CHR 0xFF] SOI \<noteq> [] \<and>
   \<not> has_complete_pair [CHR 0x01, CHR 0xFF, CHR 0xD8, CHR 0xAA, CHR 0xFF] \<and>
   inner_loop take_all 0 [CHR 0x01, CHR 0xFF, CHR 0xD8, CHR 0xAA, CHR 0xFF] =
     ([], Normal, 0, [CHR 0x01, CHR 0xFF, CHR 0xD8, CHR 0xAA, CHR 0xFF])"
proof -
  have h1: "marker_positions [CHR 0x01, CHR 0xFF, CHR 0xD8, CHR 0xAA, CHR 0xFF] SOI \<noteq> []"
    by code_simp
  have h2: "\<not> has_complete_pair [CHR 0x01, CHR 0xFF, CHR 0xD8, CHR 0xAA, CHR 0xFF]"
    by code_simp
  from start_without_end_waits [OF h1 h2, of take_all 0] h1 h2 show ?thesis by blast
qed

text \<open>
  C8 (as amended). At every point where the read loop is about to read, that is before the
  first read and whenever the chunks read so far were all scanned to the end, the buffer
  holds no completed frame: no start marker in it is followed by a later end marker. The
  buffer is what follows the last frame cut out of the bytes received (all of them when
  no frame was cut out): these bytes are gap, frame, gap, frame, ..., buffer, the frames
  being the spans yielded so far, in order, and no gap holding a start marker. The run goes
  on from this buffer with the next read, whatever it returns. The buffer need not be the
  bytes of one frame in progress.
\<close>

theorem no_stale_frame_before_read:
  assumes "[] \<notin> set chunks"
    and "outer_loop c (map Chunk chunks) 0 [] = (evs, Normal, k', d')"
  shows "\<not> has_complete_pair d' \<and>
    (\<exists>fs gs. length gs = length fs \<and> k' = length fs \<and>
       concat chunks = concat (map2 (@) gs fs) @ d' \<and>
       (\<forall>f\<in>set fs. is_span f) \<and> (\<forall>g\<in>set gs. marker_positions g SOI = []) \<and>
       yielded evs = map part fs) \<and>
    (\<exists>evs0. evs = evs0 @ [Read 4096] \<and>
       outer_loop c (map Chunk chunks @ src) 0 [] =
         (evs0 @ fst (outer_loop c src k' d'), snd (outer_loop c src k' d')))"
proof -
  obtain evsW x kw dw where i: "inner_loop c 0 ([] @ concat chunks) = (evsW, x, kw, dw)"
    by (cases "inner_loop c 0 ([] @ concat chunks)") blast
  have eof: "outer_loop c [] k data = ([Read 4096], Normal, k, data)" for k data by simp
  from outer_loop_chunks [where src = "[]", OF eof assms(1) not_complete_Nil i]
  obtain evs1 dR where o: "outer_loop c (map Chunk chunks @ []) 0 [] = (evs1, x, kw, dR)"
    and y: "yielded evs1 = yielded evsW"
    and n: "x = Normal \<longrightarrow> dR = dw \<and> (\<exists>evs'. evs1 = evs' @ [Read 4096])"
    by blast
  from o assms(2) have e: "evs1 = evs" and x: "x = Normal" and k: "kw = k'" and d: "dR = d'"
    by simp_all
  from n x d have dw: "dw = d'" by simp
  from i x k dw have i': "inner_loop c 0 (concat chunks) = (evsW, Normal, k', d')" by simp
  from inner_loop_idle [OF i'] have a: "\<not> has_complete_pair d'" by (simp add: complete_iff)
  from inner_loop_frames [OF i'] obtain fs gs where
    l: "length gs = length fs" and w: "evsW = map (\<lambda>f. Yield (part f)) fs"
    and kk: "k' = 0 + length fs"
    and dd: "concat chunks = concat (map2 (@) gs fs) @ d'"
    and s: "\<forall>f\<in>set fs. is_span f" and g: "\<forall>g\<in>set gs. marker_positions g SOI = []"
    by blast
  from y e w have yy: "yielded evs = map part fs" by (simp add: yielded_frames)
  from l kk dd s g yy have b: "\<exists>fs gs. length gs = length fs \<and> k' = length fs \<and>
       concat chunks = concat (map2 (@) gs fs) @ d' \<and>
       (\<forall>f\<in>set fs. is_span f) \<and> (\<forall>g\<in>set gs. marker_positions g SOI = []) \<and>
       yielded evs = map part fs"
    by auto
  note c = outer_loop_continue [OF assms, of src]
  from a b c show ?thesis by (intro conjI)
qed

theorem no_stale_frame_before_read_witness:
  "[] \<notin> set [[CHR 0x01, CHR 0xFF, CHR 0xD8, CHR 0xAA], [CHR 0xFF, CHR 0xD9, CHR 0xFF, CHR 0xD8, CHR 0xBB]] \<and>
   outer_loop take_all
     (map Chunk [[CHR 0x01, CHR 0xFF, CHR 0xD8, CHR 0xAA], [CHR 0xFF, CHR 0xD9, CHR 0xFF, CHR 0xD8, CHR 0xBB]])
     0 [] =
     ([Read 4096, Read 4096, Yield (part [CHR 0xFF, CHR 0xD8, CHR 0xAA, CHR 0xFF, CHR 0xD9]),
       Read 4096], Normal, 1, [CHR 0xFF, CHR 0xD8, CHR 0xBB]) \<and>
   \<not> has_complete_pair [CHR 0xFF, CHR 0xD8, CHR 0xBB] \<and>
   (\<exists>evs0. [Read 4096, Read 4096, Yield (part [CHR 0xFF, CHR 0xD8, CHR 0xAA, CHR 0xFF, CHR 0xD9]),
       Read 4096] = evs0 @ [Read 4096] \<and>
      outer_loop take_all
        (map Chunk [[CHR 0x01, CHR 0xFF, CHR 0xD8, CHR 0xAA], [CHR 0xFF, CHR 0xD9, CHR 0xFF, CHR 0xD8, CHR 0xBB]] @
         [Chunk [CHR 0xFF, CHR 0xD9]]) 0 [] =
        (evs0 @ fst (outer_loop take_all [Chunk [CHR 0xFF, CHR 0xD9]] 1 [CHR 0xFF, CHR 0xD8, CHR 0xBB]),
         snd (outer_loop take_all [Chunk [CHR 0xFF, CHR 0xD9]] 1 [CHR 0xFF, CHR 0xD8, CHR 0xBB])))"
  (is "?A \<and> ?B \<and> ?C \<and> ?D")
proof -
  have a: ?A by simp
  have b: ?B by code_simp
  note th = no_stale_frame_before_read [OF a b, of "[Chunk [CHR 0xFF, CHR 0xD9]]"]
  from th have c: ?C by (rule conjunct1)
  from th have d: ?D by (rule conjunct2 [THEN conjunct2])
  from a b c d show ?thesis by (intro conjI)
qed

text \<open>
  C8 as stated fails in its last part. After the chunk \<open>FF D9 AA\<close> the loop goes into the
  next read with the buffer \<open>FF D9 AA\<close>, which is not empty and holds no start marker, so
  it is no part of a frame in progress. After the chunk \<open>AA FF D8 BB FF D8 CC\<close> the buffer
  is this chunk: a byte that belongs to no frame and two start markers.
\<close>

theorem stray_bytes_before_read_counterexample:
  "outer_loop take_all [Chunk [CHR 0xFF, CHR 0xD9, CHR 0xAA]] 0 [] =
     ([Read 4096, Read 4096], Normal, 0, [CHR 0xFF, CHR 0xD9, CHR 0xAA]) \<and>
   marker_positions [CHR 0xFF, CHR 0xD9, CHR 0xAA] SOI = [] \<and>
   outer_loop take_all [Chunk [CHR 0xAA, CHR 0xFF, CHR 0xD8, CHR 0xBB, CHR 0xFF, CHR 0xD8, CHR 0xCC]] 0 [] =
     ([Read 4096, Read 4096], Normal, 0,
      [CHR 0xAA, CHR 0xFF, CHR 0xD8, CHR 0xBB, CHR 0xFF, CHR 0xD8, CHR 0xCC]) \<and>
   marker_positions [CHR 0xAA, CHR 0xFF, CHR 0xD8, CHR 0xBB, CHR 0xFF, CHR 0xD8, CHR 0xCC] SOI =
     [1, 4]"
  (is "?A \<and> ?B \<and> ?C \<and> ?D")
proof -
  have a: ?A by code_simp
  have b: ?B by code_simp
  have c: ?C by code_simp
  have d: ?D by code_simp
  from a b c d show ?thesis by (intro conjI)
qed

text \<open>
  C5. After a read, when the scan of the buffer ends by itself, everything between this
  read and the next one is the yields of the frames of the buffer, in buffer order: the
  buffer is gap, frame, gap, frame, ..., rest, where each frame is a span, no gap holds a
  start marker and the rest holds no completed frame; the yields are those of these frames
  in this order, and the next event after them is the next read.
\<close>

theorem all_frames_before_next_read:
  assumes "chunk \<noteq> []" and "inner_loop c k (data @ chunk) = (evs, Normal, k', rest)"
  shows "\<exists>fs gs evs'. length gs = length fs \<and>
    data @ chunk = concat (map2 (@) gs fs) @ rest \<and>
    (\<forall>f\<in>set fs. is_span f) \<and> (\<forall>g\<in>set gs. marker_positions g SOI = []) \<and>
    \<not> has_complete_pair rest \<and>
    fst (outer_loop c (Chunk chunk # src) k data) =
      Read 4096 # map (\<lambda>f. Yield (part f)) fs @ Read 4096 # evs'"
proof -
  from inner_loop_frames [OF assms(2)] obtain fs gs where
    l: "length gs = length fs" and e: "evs = map (\<lambda>f. Yield (part f)) fs"
    and d: "data @ chunk = concat (map2 (@) gs fs) @ rest"
    and s: "\<forall>f\<in>set fs. is_span f" and g: "\<forall>g\<in>set gs. marker_positions g SOI = []"
    by blast
  from inner_loop_idle [OF assms(2)] have n: "\<not> has_complete_pair rest"
    by (simp add: complete_iff)
  from outer_loop_head [of c src k' rest] obtain evs' where
    h: "fst (outer_loop c src k' rest) = Read 4096 # evs'" by blast
  from outer_loop_chunk [OF assms, of src] h e
  have "fst (outer_loop c (Chunk chunk # src) k data) =
      Read 4096 # map (\<lambda>f. Yield (part f)) fs @ Read 4096 # evs'"
    by simp
  with l d s g n show ?thesis by blast
qed

theorem all_frames_before_next_read_witness:
  "[CHR 0xFF, CHR 0xD9, CHR 0xFF, CHR 0xD8, CHR 0xCC, CHR 0xFF, CHR 0xD9, CHR 0xFF] \<noteq> [] \<and>
   fst (outer_loop take_all
     [Chunk [CHR 0xFF, CHR 0xD9, CHR 0xFF, CHR 0xD8, CHR 0xCC, CHR 0xFF, CHR 0xD9, CHR 0xFF]]
     0 [CHR 0xFF, CHR 0xD8, CHR 0xAA]) =
     [Read 4096, Yield (part [CHR 0xFF, CHR 0xD8, CHR 0xAA, CHR 0xFF, CHR 0xD9]),
      Yield (part [CHR 0xFF, CHR 0xD8, CHR 0xCC, CHR 0xFF, CHR 0xD9]), Read 4096] \<and>
   (\<exists>fs gs evs'. length gs = length fs \<and>
      [CHR 0xFF, CHR 0xD8, CHR 0xAA] @
        [CHR 0xFF, CHR 0xD9, CHR 0xFF, CHR 0xD8, CHR 0xCC, CHR 0xFF, CHR 0xD9, CHR 0xFF] =
        concat (map2 (@) gs fs) @ [CHR 0xFF] \<and>
      fst (outer_loop take_all
        [Chunk [CHR 0xFF, CHR 0xD9, CHR 0xFF, CHR 0xD8, CHR 0xCC, CHR 0xFF, CHR 0xD9, CHR 0xFF]]
        0 [CHR 0xFF, CHR 0xD8, CHR 0xAA]) =
        Read 4096 # map (\<lambda>f. Yield (part f)) fs @ Read 4096 # evs')"
  (is "?A \<and> ?B \<and> ?C")
proof -
  have ne: ?A by simp
  have i: "inner_loop take_all 0 ([CHR 0xFF, CHR 0xD8, CHR 0xAA] @
      [CHR 0xFF, CHR 0xD9, CHR 0xFF, CHR 0xD8, CHR 0xCC, CHR 0xFF, CHR 0xD9, CHR 0xFF]) =
    ([Yield (part [CHR 0xFF, CHR 0xD8, CHR 0xAA, CHR 0xFF, CHR 0xD9]),
      Yield (part [CHR 0xFF, CHR 0xD8, CHR 0xCC, CHR 0xFF, CHR 0xD9])], Normal, 2, [CHR 0xFF])"
    by code_simp
  have o: ?B by code_simp
  from all_frames_before_next_read [OF ne i, of "[]"] obtain fs gs evs' where
    "length gs = length fs"
    and "[CHR 0xFF, CHR 0xD8, CHR 0xAA] @
        [CHR 0xFF, CHR 0xD9, CHR 0xFF, CHR 0xD8, CHR 0xCC, CHR 0xFF, CHR 0xD9, CHR 0xFF] =
        concat (map2 (@) gs fs) @ [CHR 0xFF]"
    and "fst (outer_loop take_all
        [Chunk [CHR 0xFF, CHR 0xD9, CHR 0xFF, CHR 0xD8, CHR 0xCC, CHR 0xFF, CHR 0xD9, CHR 0xFF]]
        0 [CHR 0xFF, CHR 0xD8, CHR 0xAA]) =
        Read 4096 # map (\<lambda>f. Yield (part f)) fs @ Read 4096 # evs'"
    by blast
  then have c: ?C by blast
  from ne o c show ?thesis by (intro conjI)
qed

text \<open>
  C7. Every chunk the generator yields is \<open>--frame\r\nContent-Type: image/jpeg\r\n\r\n\<close>,
  then the frame, then \<open>\r\n\<close>; the frame begins with \<open>0xFF 0xD8\<close>, ends with
  \<open>0xFF 0xD9\<close> and is at least 4 bytes long. Whenever the scan finds a frame, the end
  marker it found lies at \<open>start + 2\<close> or later.
\<close>

theorem yielded_chunk_format:
  "(b \<in> set (yielded (trace (generate_frames e stream_id))) \<longrightarrow>
     (\<exists>f. b = ''--frame'' @ [CHR 0x0D, CHR 0x0A] @ ''Content-Type: image/jpeg'' @
               [CHR 0x0D, CHR 0x0A, CHR 0x0D, CHR 0x0A] @ f @ [CHR 0x0D, CHR 0x0A] \<and>
          take 2 f = [CHR 0xFF, CHR 0xD8] \<and> drop (length f - 2) f = [CHR 0xFF, CHR 0xD9] \<and>
          4 \<le> length f)) \<and>
   (complete data \<longrightarrow> start_of data + 2 \<le> end_of data)"
proof (intro conjI impI)
  assume "complete data"
  then show "start_of data + 2 \<le> end_of data" by (rule complete_bounds(2))
next
  assume b: "b \<in> set (yielded (trace (generate_frames e stream_id)))"
  have "\<exists>f. b = part f \<and> is_span f"
  proof (cases "query_stream (db e) stream_id")
    case (Inl err)
    from b generate_frames_overflow [OF Inl] show ?thesis by simp
  next
    case (Inr found)
    show ?thesis
    proof (cases found)
      case None
      with Inr have "query_stream (db e) stream_id = Inr None" by simp
      from b generate_frames_absent [OF this] show ?thesis by simp
    next
      case (Some cfg)
      with Inr have q: "query_stream (db e) stream_id = Inr (Some cfg)" by simp
      obtain u q r f where cfg: "cfg = (u, q, r, f)" by (cases cfg) blast
      show ?thesis
      proof (cases "can_launch e")
        case False
        from b generate_frames_no_launch [OF q False] show ?thesis by simp
      next
        case True
        obtain evs x k' d' where o: "outer_loop (consumer e) (source e) 0 [] = (evs, x, k', d')"
          by (cases "outer_loop (consumer e) (source e) 0 []") blast
        from b generate_frames_found [OF q [unfolded cfg] True] o
        have "Yield b \<in> set evs" by (simp add: yielded_append yielded_set)
        with outer_loop_events [OF o] show ?thesis by auto
      qed
    qed
  qed
  then obtain f where bf: "b = part f" and sp: "is_span f" by blast
  from bf have "b = ''--frame'' @ [CHR 0x0D, CHR 0x0A] @ ''Content-Type: image/jpeg'' @
               [CHR 0x0D, CHR 0x0A, CHR 0x0D, CHR 0x0A] @ f @ [CHR 0x0D, CHR 0x0A]"
    by (simp add: part_def part_header_def CRLF_def)
  moreover from span_ends [OF sp] have "take 2 f = [CHR 0xFF, CHR 0xD8]"
    and "drop (length f - 2) f = [CHR 0xFF, CHR 0xD9]" and "4 \<le> length f"
    by (simp_all add: SOI_def EOI_def)
  ultimately show "\<exists>f. b = ''--frame'' @ [CHR 0x0D, CHR 0x0A] @ ''Content-Type: image/jpeg'' @
               [CHR 0x0D, CHR 0x0A, CHR 0x0D, CHR 0x0A] @ f @ [CHR 0x0D, CHR 0x0A] \<and>
          take 2 f = [CHR 0xFF, CHR 0xD8] \<and> drop (length f - 2) f = [CHR 0xFF, CHR 0xD9] \<and>
          4 \<le> length f"
    by blast
qed

theorem yielded_chunk_format_witness:
  "part [CHR 0xFF, CHR 0xD8, CHR 0xAA, CHR 0xFF, CHR 0xD9] \<in> set (yielded (trace (generate_frames
     \<lparr>db = one_camera, can_launch = True,
      source = [Chunk [CHR 0xFF, CHR 0xD8, CHR 0xAA, CHR 0xFF, CHR 0xD9]],
      consumer = take_all\<rparr> 1))) \<and>
   complete [CHR 0xFF, CHR 0xD8, CHR 0xAA, CHR 0xFF, CHR 0xD9] \<and>
   (\<exists>f. part [CHR 0xFF, CHR 0xD8, CHR 0xAA, CHR 0xFF, CHR 0xD9] =
          ''--frame'' @ [CHR 0x0D, CHR 0x0A] @ ''Content-Type: image/jpeg'' @
            [CHR 0x0D, CHR 0x0A, CHR 0x0D, CHR 0x0A] @ f @ [CHR 0x0D, CHR 0x0A] \<and>
        take 2 f = [CHR 0xFF, CHR 0xD8] \<and> drop (length f - 2) f = [CHR 0xFF, CHR 0xD9] \<and>
        4 \<le> length f) \<and>
   start_of [CHR 0xFF, CHR 0xD8, CHR 0xAA, CHR 0xFF, CHR 0xD9] + 2 \<le>
     end_of [CHR 0xFF, CHR 0xD8, CHR 0xAA, CHR 0xFF, CHR 0xD9]"
  (is "?A \<and> ?B \<and> ?C \<and> ?D")
proof -
  have h1: ?A by code_simp
  have h2: ?B by code_simp
  note th = yielded_chunk_format
    [of "part [CHR 0xFF, CHR 0xD8, CHR 0xAA, CHR 0xFF, CHR 0xD9]"
      "\<lparr>db = one_camera, can_launch = True,
        source = [Chunk [CHR 0xFF, CHR 0xD8, CHR 0xAA, CHR 0xFF, CHR 0xD9]],
        consumer = take_all\<rparr>" 1
      "[CHR 0xFF, CHR 0xD8, CHR 0xAA, CHR 0xFF, CHR 0xD9]"]
  from th have "?A \<longrightarrow> ?C" by (rule conjunct1)
  then have h3: ?C using h1 by (rule mp)
  from th have "?B \<longrightarrow> ?D" by (rule conjunct2)
  then have h4: ?D using h2 by (rule mp)
  from h1 h2 h3 h4 show ?thesis by (intro conjI)
qed

lemma launches_append: "launches (a @ b) = launches a + launches b"
  by (induction a rule: launches.induct) simp_all

lemma reads_and_yields_only:
  assumes "\<forall>ev\<in>set evs. ev = Read 4096 \<or> (\<exists>f. ev = Yield (part f) \<and> is_span f)"
  shows "launches evs = 0" and "Kill \<notin> set evs" and "count_list evs Kill = 0"
proof -
  from assms have w: "\<forall>ev\<in>set evs. (\<exists>n. ev = Read n) \<or> (\<exists>b. ev = Yield b)"
    by blast
  then show "launches evs = 0"
  proof (induction evs)
    case Nil
    show ?case by simp
  next
    case (Cons a evs)
    then have "launches evs = 0" by simp
    moreover from Cons.prems have "(\<exists>n. a = Read n) \<or> (\<exists>b. a = Yield b)" by simp
    ultimately show ?case by (cases a) simp_all
  qed
  have k: "Kill \<notin> set evs"
  proof
    assume "Kill \<in> set evs"
    with w have "(\<exists>n. Kill = Read n) \<or> (\<exists>b. Kill = Yield b)" by (rule bspec)
    then show False by simp
  qed
  then show "Kill \<notin> set evs" .
  from k show "count_list evs Kill = 0" by (simp add: count_list_0_iff)
qed

text \<open>
  C1. Every run of \<open>generate_frames\<close> that starts a decoder process launches exactly one
  process and calls \<open>kill\<close> exactly once, as its last act but the exit of the \<open>with\<close>
  block, however the loops are left: normally at the end of the stream, by an error of the
  read, by the consumer closing the generator or by an exception thrown in at a \<open>yield\<close>.
  When the consumer ends the run at a \<open>yield\<close>, \<open>kill\<close> comes directly after that yield: no
  further read is made.
\<close>

theorem generate_frames_kills_once:
  assumes "query_stream (db e) stream_id = Inr (Some cfg)" and "can_launch e"
  shows "launches (trace (generate_frames e stream_id)) = 1 \<and>
    count_list (trace (generate_frames e stream_id)) Kill = 1 \<and>
    (\<exists>cmd evs. trace (generate_frames e stream_id) = Popen cmd # evs @ [Kill, Wait] \<and>
       Kill \<notin> set evs) \<and>
    (exit (generate_frames e stream_id) = Normal \<or>
     exit (generate_frames e stream_id) = Read_error \<or>
     exit (generate_frames e stream_id) = Generator_exit \<or>
     exit (generate_frames e stream_id) = Thrown) \<and>
    (exit (generate_frames e stream_id) = Generator_exit \<or>
     exit (generate_frames e stream_id) = Thrown \<longrightarrow>
       (\<exists>evs b. trace (generate_frames e stream_id) = evs @ [Yield b, Kill, Wait]))"
proof -
  obtain u q r f where cfg: "cfg = (u, q, r, f)" by (cases cfg) blast
  obtain evs x k' d' where o: "outer_loop (consumer e) (source e) 0 [] = (evs, x, k', d')"
    by (cases "outer_loop (consumer e) (source e) 0 []") blast
  let ?g = "generate_frames e stream_id"
  have g: "?g = \<lparr>trace = Popen (command u q r f) # evs @ [Kill, Wait], exit = x\<rparr>"
    unfolding generate_frames_found [OF assms(1) [unfolded cfg] assms(2)] o by simp
  have t: "trace ?g = Popen (command u q r f) # evs @ [Kill, Wait]" unfolding g by simp
  have x: "exit ?g = x" unfolding g by simp
  note ev = outer_loop_events [OF o]
  from ev have only: "\<forall>ev\<in>set evs. ev = Read 4096 \<or> (\<exists>f. ev = Yield (part f) \<and> is_span f)"
    by (rule conjunct1)
  from ev have paths: "x = Normal \<or> x = Read_error \<or> x = Generator_exit \<or> x = Thrown"
    by simp
  from ev have cut: "x = Generator_exit \<or> x = Thrown \<longrightarrow> (\<exists>evs' b. evs = evs' @ [Yield b])"
    by simp
  note clean = reads_and_yields_only [OF only]
  have a: "launches (trace ?g) = 1"
    unfolding t using clean(1) by (simp add: launches_append)
  have b: "count_list (trace ?g) Kill = 1"
    unfolding t using clean(3) by simp
  have c: "\<exists>cmd evs. trace ?g = Popen cmd # evs @ [Kill, Wait] \<and> Kill \<notin> set evs"
    unfolding t using clean(2) by blast
  have d: "exit ?g = Normal \<or> exit ?g = Read_error \<or> exit ?g = Generator_exit \<or>
    exit ?g = Thrown" unfolding x by (rule paths)
  have e: "exit ?g = Generator_exit \<or> exit ?g = Thrown \<longrightarrow>
    (\<exists>evs b. trace ?g = evs @ [Yield b, Kill, Wait])"
  proof
    assume "exit ?g = Generator_exit \<or> exit ?g = Thrown"
    then have "x = Generator_exit \<or> x = Thrown" unfolding x .
    with cut obtain evs' b where "evs = evs' @ [Yield b]" by blast
    then have "trace ?g = (Popen (command u q r f) # evs') @ [Yield b, Kill, Wait]"
      unfolding t by simp
    then show "\<exists>evs b. trace ?g = evs @ [Yield b, Kill, Wait]" by blast
  qed
  from a b c d e show ?thesis by (intro conjI)
qed

theorem generate_frames_kills_once_witness:
  "query_stream (db \<lparr>db = one_camera, can_launch = True,
      source = [Chunk [CHR 0xFF, CHR 0xD8, CHR 0xFF, CHR 0xD9, CHR 0xFF, CHR 0xD8, CHR 0xFF, CHR 0xD9],
                Chunk [CHR 0xFF, CHR 0xD8, CHR 0xFF, CHR 0xD9, CHR 0xFF, CHR 0xD8, CHR 0xFF, CHR 0xD9]],
      consumer = close_after 3\<rparr>) 1 = Inr (Some (''rtsp://cam'', ''5'', ''640x480'', 15)) \<and>
   can_launch \<lparr>db = one_camera, can_launch = True,
      source = [Chunk [CHR 0xFF, CHR 0xD8, CHR 0xFF, CHR 0xD9, CHR 0xFF, CHR 0xD8, CHR 0xFF, CHR 0xD9],
                Chunk [CHR 0xFF, CHR 0xD8, CHR 0xFF, CHR 0xD9, CHR 0xFF, CHR 0xD8, CHR 0xFF, CHR 0xD9]],
      consumer = close_after 3\<rparr> \<and>
   trace (generate_frames \<lparr>db = one_camera, can_launch = True,
      source = [Chunk [CHR 0xFF, CHR 0xD8, CHR 0xFF, CHR 0xD9, CHR 0xFF, CHR 0xD8, CHR 0xFF, CHR 0xD9],
                Chunk [CHR 0xFF, CHR 0xD8, CHR 0xFF, CHR 0xD9, CHR 0xFF, CHR 0xD8, CHR 0xFF, CHR 0xD9]],
      consumer = close_after 3\<rparr> 1) =
     [Popen (command ''rtsp://cam'' ''5'' ''640x480'' 15), Read 4096,
      Yield (part [CHR 0xFF, CHR 0xD8, CHR 0xFF, CHR 0xD9]),
      Yield (part [CHR 0xFF, CHR 0xD8, CHR 0xFF, CHR 0xD9]), Read 4096,
      Yield (part [CHR 0xFF, CHR 0xD8, CHR 0xFF, CHR 0xD9]), Kill, Wait] \<and>
   count_list (trace (generate_frames \<lparr>db = one_camera,
      can_launch = True,
      source = [Chunk [CHR 0xFF, CHR 0xD8, CHR 0xFF, CHR 0xD9, CHR 0xFF, CHR 0xD8, CHR 0xFF, CHR 0xD9],
                Chunk [CHR 0xFF, CHR 0xD8, CHR 0xFF, CHR 0xD9, CHR 0xFF, CHR 0xD8, CHR 0xFF, CHR 0xD9]],
      consumer = close_after 3\<rparr> 1)) Kill = 1"
  (is "?A \<and> ?B \<and> ?C \<and> ?D")
proof -
  have h1: ?A by code_simp
  have h2: ?B by simp
  have h3: ?C by code_simp
  from generate_frames_kills_once [OF h1 h2] have h4: ?D by (elim conjE)
  from h1 h2 h3 h4 show ?thesis by (intro conjI)
qed

subsection \<open>Chunks against the whole\<close>

lemma concat_Nil_no_empty: "[] \<notin> set chunks \<Longrightarrow> concat chunks = [] \<Longrightarrow> chunks = []"
  by (cases chunks) auto

lemma outer_loop_Nil_eof: "outer_loop c [] k data = ([Read 4096], Normal, k, data)"
  by simp

text \<open>Fed in chunks or as one chunk, the buffer gives the same yields and the same exit.\<close>

lemma outer_loop_chunking:
  assumes "[] \<notin> set chunks" and "\<not> complete data"
  shows "yielded (fst (outer_loop c (map Chunk chunks) k data)) =
      yielded (fst (outer_loop c [Chunk (concat chunks)] k data)) \<and>
    fst (snd (outer_loop c (map Chunk chunks) k data)) =
      fst (snd (outer_loop c [Chunk (concat chunks)] k data))"
proof (cases "concat chunks = []")
  case True
  from concat_Nil_no_empty [OF assms(1) True] have "chunks = []" .
  then show ?thesis by simp
next
  case False
  obtain evsW x k' d' where w: "inner_loop c k (data @ concat chunks) = (evsW, x, k', d')"
    by (cases "inner_loop c k (data @ concat chunks)") blast
  from outer_loop_chunks [of c "[]", OF outer_loop_Nil_eof assms w]
  obtain e1 d1 where o1: "outer_loop c (map Chunk chunks) k data = (e1, x, k', d1)"
    and y1: "yielded e1 = yielded evsW" by auto
  from False have ne: "[] \<notin> set [concat chunks]" by simp
  from w have w': "inner_loop c k (data @ concat [concat chunks]) = (evsW, x, k', d')" by simp
  from outer_loop_chunks [of c "[]", OF outer_loop_Nil_eof ne assms(2) w']
  obtain e2 d2 where o2: "outer_loop c [Chunk (concat chunks)] k data = (e2, x, k', d2)"
    and y2: "yielded e2 = yielded evsW" by auto
  from o1 o2 y1 y2 show ?thesis by simp
qed

lemma generate_frames_source:
  "generate_frames (e\<lparr>source := s\<rparr>) stream_id =
    (case query_stream (db e) stream_id of
       Inl err \<Rightarrow> \<lparr>trace = [], exit = Overflow_error\<rparr>
     | Inr None \<Rightarrow> \<lparr>trace = [], exit = Normal\<rparr>
     | Inr (Some (u, q, r, f)) \<Rightarrow>
         if \<not> can_launch e then \<lparr>trace = [], exit = Launch_error\<rparr>
         else \<lparr>trace = Popen (command u q r f) # fst (outer_loop (consumer e) s 0 []) @ [Kill, Wait],
               exit = fst (snd (outer_loop (consumer e) s 0 []))\<rparr>)"
  by (simp add: generate_frames_def split: sum.splits db_error.splits option.splits prod.splits)

text \<open>
  C3. For every byte sequence and every way of cutting it into (non-empty) chunks, the
  generator that reads the chunks one by one yields the same chunks in the same order, and
  ends the same way, as the generator that reads the whole sequence as one chunk. With
  chunk 1 = \<open>FF D8 AA\<close> and chunk 2 = \<open>BB FF D9\<close>: the scan after chunk 1 yields nothing
  and keeps the three bytes; after chunk 2 exactly the frame \<open>FF D8 AA BB FF D9\<close> has been
  yielded and the buffer is empty.
\<close>

theorem chunking_invariance:
  "([] \<notin> set chunks \<longrightarrow>
      yielded (trace (generate_frames (e\<lparr>source := map Chunk chunks\<rparr>) stream_id)) =
        yielded (trace (generate_frames (e\<lparr>source := [Chunk (concat chunks)]\<rparr>) stream_id)) \<and>
      exit (generate_frames (e\<lparr>source := map Chunk chunks\<rparr>) stream_id) =
        exit (generate_frames (e\<lparr>source := [Chunk (concat chunks)]\<rparr>) stream_id)) \<and>
   inner_loop take_all 0 ([] @ [CHR 0xFF, CHR 0xD8, CHR 0xAA]) =
     ([], Normal, 0, [CHR 0xFF, CHR 0xD8, CHR 0xAA]) \<and>
   outer_loop take_all [Chunk [CHR 0xFF, CHR 0xD8, CHR 0xAA], Chunk [CHR 0xBB, CHR 0xFF, CHR 0xD9]] 0 [] =
     ([Read 4096, Read 4096,
       Yield (part [CHR 0xFF, CHR 0xD8, CHR 0xAA, CHR 0xBB, CHR 0xFF, CHR 0xD9]), Read 4096],
      Normal, 1, [])"
  (is "?G \<and> ?S1 \<and> ?S2")
proof -
  have g: ?G
  proof
    assume ne: "[] \<notin> set chunks"
    note ch = outer_loop_chunking [OF ne not_complete_Nil, of "consumer e" 0]
    show "yielded (trace (generate_frames (e\<lparr>source := map Chunk chunks\<rparr>) stream_id)) =
        yielded (trace (generate_frames (e\<lparr>source := [Chunk (concat chunks)]\<rparr>) stream_id)) \<and>
      exit (generate_frames (e\<lparr>source := map Chunk chunks\<rparr>) stream_id) =
        exit (generate_frames (e\<lparr>source := [Chunk (concat chunks)]\<rparr>) stream_id)"
      unfolding generate_frames_source using ch
      by (simp add: yielded_append split: sum.splits option.splits prod.splits)
  qed
  have s1: ?S1 by code_simp
  have s2: ?S2 by code_simp
  from g s1 s2 show ?thesis by (intro conjI)
qed

theorem chunking_invariance_witness:
  "[] \<notin> set [[CHR 0xFF, CHR 0xD8, CHR 0xAA], [CHR 0xBB, CHR 0xFF, CHR 0xD9]] \<and>
   yielded (trace (generate_frames
     (\<lparr>db = one_camera, can_launch = True,
       source = [], consumer = take_all\<rparr>
      \<lparr>source := map Chunk [[CHR 0xFF, CHR 0xD8, CHR 0xAA], [CHR 0xBB, CHR 0xFF, CHR 0xD9]]\<rparr>) 1)) =
     [part [CHR 0xFF, CHR 0xD8, CHR 0xAA, CHR 0xBB, CHR 0xFF, CHR 0xD9]] \<and>
   yielded (trace (generate_frames
     (\<lparr>db = one_camera, can_launch = True,
       source = [], consumer = take_all\<rparr>
      \<lparr>source := map Chunk [[CHR 0xFF, CHR 0xD8, CHR 0xAA], [CHR 0xBB, CHR 0xFF, CHR 0xD9]]\<rparr>) 1)) =
   yielded (trace (generate_frames
     (\<lparr>db = one_camera, can_launch = True,
       source = [], consumer = take_all\<rparr>
      \<lparr>source := [Chunk (concat [[CHR 0xFF, CHR 0xD8, CHR 0xAA], [CHR 0xBB, CHR 0xFF, CHR 0xD9]])]\<rparr>) 1))"
  (is "?A \<and> ?B \<and> ?C")
proof -
  have h1: ?A by simp
  have h2: ?B by code_simp
  note th = chunking_invariance
    [of "[[CHR 0xFF, CHR 0xD8, CHR 0xAA], [CHR 0xBB, CHR 0xFF, CHR 0xD9]]"
      "\<lparr>db = one_camera, can_launch = True,
        source = [], consumer = take_all\<rparr>" 1]
  from th have "?A \<longrightarrow> ?C \<and>
    exit (generate_frames
     (\<lparr>db = one_camera, can_launch = True,
       source = [], consumer = take_all\<rparr>
      \<lparr>source := map Chunk [[CHR 0xFF, CHR 0xD8, CHR 0xAA], [CHR 0xBB, CHR 0xFF, CHR 0xD9]]\<rparr>) 1) =
    exit (generate_frames
     (\<lparr>db = one_camera, can_launch = True,
       source = [], consumer = take_all\<rparr>
      \<lparr>source := [Chunk (concat [[CHR 0xFF, CHR 0xD8, CHR 0xAA], [CHR 0xBB, CHR 0xFF, CHR 0xD9]])]\<rparr>) 1)"
    by (rule conjunct1)
  then have h3: ?C using h1 by (elim impE conjE)
  from h1 h2 h3 show ?thesis by (intro conjI)
qed

text \<open>
  C4 (as amended). Let the input be the concatenation of N spans, each of which begins with
  \<open>0xFFD8\<close>, ends with \<open>0xFFD9\<close> and holds no other end marker \<open>0xFFD9\<close> (so each runs from
  a start marker to the first end marker that follows it), with no partial trailing span.
  Then, however the input is cut into chunks, a run whose consumer takes every chunk
  yields exactly these N frames in order and ends normally with an empty buffer.
\<close>

theorem spans_give_frames:
  assumes "\<forall>f\<in>set fs. is_span f" and "[] \<notin> set chunks" and "concat chunks = concat fs"
    and "\<forall>n. c n = Next"
  shows "\<exists>evs. outer_loop c (map Chunk chunks) 0 [] = (evs, Normal, length fs, []) \<and>
    yielded evs = map part fs \<and> length (yielded evs) = length fs"
proof -
  from inner_loop_spans [OF assms(4) assms(1), of 0 "[]"]
  have "inner_loop c 0 (concat fs) = (map (\<lambda>f. Yield (part f)) fs, Normal, length fs, [])"
    by (simp add: inner_loop_Nil)
  with assms(3) have w: "inner_loop c 0 ([] @ concat chunks) =
    (map (\<lambda>f. Yield (part f)) fs, Normal, length fs, [])" by simp
  from outer_loop_chunks [of c "[]", OF _ assms(2) not_complete_Nil w]
  obtain evs dR where o: "outer_loop c (map Chunk chunks) 0 [] = (evs, Normal, length fs, dR)"
    and y: "yielded evs = yielded (map (\<lambda>f. Yield (part f)) fs)" and d: "dR = []"
    by auto
  from y have "yielded evs = map part fs" by (simp add: yielded_frames)
  with o d show ?thesis by simp
qed

theorem spans_give_frames_witness:
  "(is_span [CHR 0xFF, CHR 0xD8, CHR 0xAA, CHR 0xBB, CHR 0xFF, CHR 0xD9] \<and>
    is_span [CHR 0xFF, CHR 0xD8, CHR 0xCC, CHR 0xFF, CHR 0xD9]) \<and>
   outer_loop take_all
     [Chunk [CHR 0xFF, CHR 0xD8, CHR 0xAA, CHR 0xBB, CHR 0xFF, CHR 0xD9,
             CHR 0xFF, CHR 0xD8, CHR 0xCC, CHR 0xFF, CHR 0xD9]] 0 [] =
     ([Read 4096, Yield (part [CHR 0xFF, CHR 0xD8, CHR 0xAA, CHR 0xBB, CHR 0xFF, CHR 0xD9]),
       Yield (part [CHR 0xFF, CHR 0xD8, CHR 0xCC, CHR 0xFF, CHR 0xD9]), Read 4096],
      Normal, 2, []) \<and>
   (\<exists>evs. outer_loop take_all
      (map Chunk [[CHR 0xFF, CHR 0xD8, CHR 0xAA, CHR 0xBB, CHR 0xFF, CHR 0xD9,
                   CHR 0xFF, CHR 0xD8, CHR 0xCC, CHR 0xFF, CHR 0xD9]]) 0 [] =
      (evs, Normal,
       length [[CHR 0xFF, CHR 0xD8, CHR 0xAA, CHR 0xBB, CHR 0xFF, CHR 0xD9],
               [CHR 0xFF, CHR 0xD8, CHR 0xCC, CHR 0xFF, CHR 0xD9]], []) \<and>
      yielded evs = map part [[CHR 0xFF, CHR 0xD8, CHR 0xAA, CHR 0xBB, CHR 0xFF, CHR 0xD9],
                              [CHR 0xFF, CHR 0xD8, CHR 0xCC, CHR 0xFF, CHR 0xD9]] \<and>
      length (yielded evs) =
        length [[CHR 0xFF, CHR 0xD8, CHR 0xAA, CHR 0xBB, CHR 0xFF, CHR 0xD9],
                [CHR 0xFF, CHR 0xD8, CHR 0xCC, CHR 0xFF, CHR 0xD9]])"
  (is "?A \<and> ?B \<and> ?C")
proof -
  have h0: ?A by code_simp
  then have h1: "\<forall>f\<in>set [[CHR 0xFF, CHR 0xD8, CHR 0xAA, CHR 0xBB, CHR 0xFF, CHR 0xD9],
                          [CHR 0xFF, CHR 0xD8, CHR 0xCC, CHR 0xFF, CHR 0xD9]]. is_span f" by simp
  have h2: "[] \<notin> set [[CHR 0xFF, CHR 0xD8, CHR 0xAA, CHR 0xBB, CHR 0xFF, CHR 0xD9,
                           CHR 0xFF, CHR 0xD8, CHR 0xCC, CHR 0xFF, CHR 0xD9]]" by simp
  have h3: "concat [[CHR 0xFF, CHR 0xD8, CHR 0xAA, CHR 0xBB, CHR 0xFF, CHR 0xD9,
                     CHR 0xFF, CHR 0xD8, CHR 0xCC, CHR 0xFF, CHR 0xD9]] =
    concat [[CHR 0xFF, CHR 0xD8, CHR 0xAA, CHR 0xBB, CHR 0xFF, CHR 0xD9],
            [CHR 0xFF, CHR 0xD8, CHR 0xCC, CHR 0xFF, CHR 0xD9]]" by simp
  have h4: "\<forall>n. take_all n = Next" by (simp add: take_all_def)
  have h5: ?B by code_simp
  have h6: ?C by (rule spans_give_frames [OF h1 h2 h3 h4])
  show ?thesis by (rule conjI [OF h0 conjI [OF h5 h6]])
qed

text \<open>
  C4 as stated fails. The 10 bytes \<open>FF D8 FF D8 AA FF D9 BB FF D9\<close> begin with \<open>0xFFD8\<close>
  and end with \<open>0xFFD9\<close> (a picture that embeds a smaller one), with nothing after them.
  Read as one chunk, the frame yielded is cut at the first end marker and the last three
  bytes stay in the buffer when the stream ends.
\<close>

theorem span_with_inner_end_marker_counterexample:
  "take 2 [CHR 0xFF, CHR 0xD8, CHR 0xFF, CHR 0xD8, CHR 0xAA, CHR 0xFF, CHR 0xD9,
           CHR 0xBB, CHR 0xFF, CHR 0xD9] = SOI \<and>
   drop 8 [CHR 0xFF, CHR 0xD8, CHR 0xFF, CHR 0xD8, CHR 0xAA, CHR 0xFF, CHR 0xD9,
           CHR 0xBB, CHR 0xFF, CHR 0xD9] = EOI \<and>
   outer_loop take_all
     [Chunk [CHR 0xFF, CHR 0xD8, CHR 0xFF, CHR 0xD8, CHR 0xAA, CHR 0xFF, CHR 0xD9,
             CHR 0xBB, CHR 0xFF, CHR 0xD9]] 0 [] =
     ([Read 4096, Yield (part [CHR 0xFF, CHR 0xD8, CHR 0xFF, CHR 0xD8, CHR 0xAA, CHR 0xFF, CHR 0xD9]),
       Read 4096],
      Normal, 1, [CHR 0xBB, CHR 0xFF, CHR 0xD9])"
  by code_simp

text \<open>
  C9. When the read returns no bytes (or the script of reads is exhausted) after the chunks
  received so far, and the consumer has taken every chunk offered, the generator ends
  normally: its last events are that read, \<open>kill\<close> and the exit of the \<open>with\<close> block.
  What it has yielded are the frames cut from the bytes received; the bytes left in the
  buffer, whatever they are, follow the last of these frames in the input and are part of
  no yielded chunk.
\<close>

theorem eof_discards_residue:
  assumes "query_stream (db e) stream_id = Inr (Some cfg)" and "can_launch e"
    and "source e = map Chunk chunks @ eof" and "eof = [] \<or> (\<exists>rest. eof = Chunk [] # rest)"
    and "[] \<notin> set chunks"
    and "inner_loop (consumer e) 0 (concat chunks) = (evsW, Normal, k', residue)"
  shows "exit (generate_frames e stream_id) = Normal \<and>
    (\<exists>cmd evs. trace (generate_frames e stream_id) = Popen cmd # evs @ [Read 4096, Kill, Wait]) \<and>
    (\<exists>fs gs. length gs = length fs \<and> concat chunks = concat (map2 (@) gs fs) @ residue \<and>
       yielded (trace (generate_frames e stream_id)) = map part fs)"
proof -
  obtain u q r f where cfg: "cfg = (u, q, r, f)" by (cases cfg) blast
  let ?g = "generate_frames e stream_id"
  from assms(4) have eof: "outer_loop (consumer e) eof k data = ([Read 4096], Normal, k, data)"
    for k data by auto
  from assms(6) have w: "inner_loop (consumer e) 0 ([] @ concat chunks) =
    (evsW, Normal, k', residue)" by simp
  from outer_loop_chunks [of "consumer e" eof, OF eof assms(5) not_complete_Nil w]
  obtain evs dR evs' where
    o: "outer_loop (consumer e) (map Chunk chunks @ eof) 0 [] = (evs, Normal, k', dR)"
    and y: "yielded evs = yielded evsW" and l: "evs = evs' @ [Read 4096]"
    by auto
  have g: "?g = \<lparr>trace = Popen (command u q r f) # evs @ [Kill, Wait], exit = Normal\<rparr>"
    unfolding generate_frames_found [OF assms(1) [unfolded cfg] assms(2)] assms(3) o by simp
  have a: "exit ?g = Normal" unfolding g by simp
  have "trace ?g = Popen (command u q r f) # evs' @ [Read 4096, Kill, Wait]"
    unfolding g l by simp
  then have b: "\<exists>cmd evs. trace ?g = Popen cmd # evs @ [Read 4096, Kill, Wait]" by blast
  from inner_loop_frames [OF assms(6)] obtain fs gs where
    lg: "length gs = length fs" and ew: "evsW = map (\<lambda>f. Yield (part f)) fs"
    and d: "concat chunks = concat (map2 (@) gs fs) @ residue" by blast
  have "yielded (trace ?g) = map part fs"
    unfolding g by (simp add: yielded_append y ew yielded_frames)
  with lg d have c: "\<exists>fs gs. length gs = length fs \<and>
    concat chunks = concat (map2 (@) gs fs) @ residue \<and> yielded (trace ?g) = map part fs"
    by blast
  from a b c show ?thesis by (intro conjI)
qed

theorem eof_discards_residue_witness:
  "query_stream (db \<lparr>db = one_camera, can_launch = True,
      source = map Chunk [[CHR 0xFF, CHR 0xD8, CHR 0xAA, CHR 0xFF, CHR 0xD9, CHR 0xFF, CHR 0xD8, CHR 0xBB]] @
        Chunk [] # [Chunk [CHR 0xCC, CHR 0xFF, CHR 0xD9]],
      consumer = take_all\<rparr>) 1 = Inr (Some (''rtsp://cam'', ''5'', ''640x480'', 15)) \<and>
   inner_loop take_all 0
     (concat [[CHR 0xFF, CHR 0xD8, CHR 0xAA, CHR 0xFF, CHR 0xD9, CHR 0xFF, CHR 0xD8, CHR 0xBB]]) =
     ([Yield (part [CHR 0xFF, CHR 0xD8, CHR 0xAA, CHR 0xFF, CHR 0xD9])], Normal, 1,
      [CHR 0xFF, CHR 0xD8, CHR 0xBB]) \<and>
   trace (generate_frames \<lparr>db = one_camera, can_launch = True,
      source = map Chunk [[CHR 0xFF, CHR 0xD8, CHR 0xAA, CHR 0xFF, CHR 0xD9, CHR 0xFF, CHR 0xD8, CHR 0xBB]] @
        Chunk [] # [Chunk [CHR 0xCC, CHR 0xFF, CHR 0xD9]],
      consumer = take_all\<rparr> 1) =
     [Popen (command ''rtsp://cam'' ''5'' ''640x480'' 15), Read 4096,
      Yield (part [CHR 0xFF, CHR 0xD8, CHR 0xAA, CHR 0xFF, CHR 0xD9]), Read 4096, Kill, Wait] \<and>
   exit (generate_frames \<lparr>db = one_camera, can_launch = True,
      source = map Chunk [[CHR 0xFF, CHR 0xD8, CHR 0xAA, CHR 0xFF, CHR 0xD9, CHR 0xFF, CHR 0xD8, CHR 0xBB]] @
        Chunk [] # [Chunk [CHR 0xCC, CHR 0xFF, CHR 0xD9]],
      consumer = take_all\<rparr> 1) = Normal"
  (is "?A \<and> ?B \<and> ?C \<and> ?D")
proof -
  let ?e = "\<lparr>db = one_camera, can_launch = True,
      source = map Chunk [[CHR 0xFF, CHR 0xD8, CHR 0xAA, CHR 0xFF, CHR 0xD9, CHR 0xFF, CHR 0xD8, CHR 0xBB]] @
        Chunk [] # [Chunk [CHR 0xCC, CHR 0xFF, CHR 0xD9]],
      consumer = take_all\<rparr>"
  have h1: ?A by code_simp
  have h2: "can_launch ?e" by simp
  have h3: "source ?e =
    map Chunk [[CHR 0xFF, CHR 0xD8, CHR 0xAA, CHR 0xFF, CHR 0xD9, CHR 0xFF, CHR 0xD8, CHR 0xBB]] @
      Chunk [] # [Chunk [CHR 0xCC, CHR 0xFF, CHR 0xD9]]" by simp
  have h4: "Chunk [] # [Chunk [CHR 0xCC, CHR 0xFF, CHR 0xD9]] = [] \<or>
    (\<exists>rest. Chunk [] # [Chunk [CHR 0xCC, CHR 0xFF, CHR 0xD9]] = Chunk [] # rest)" by simp
  have h5: "[] \<notin> set [[CHR 0xFF, CHR 0xD8, CHR 0xAA, CHR 0xFF, CHR 0xD9, CHR 0xFF, CHR 0xD8, CHR 0xBB]]"
    by simp
  have h6: ?B by code_simp
  have h6': "inner_loop (consumer ?e) 0
     (concat [[CHR 0xFF, CHR 0xD8, CHR 0xAA, CHR 0xFF, CHR 0xD9, CHR 0xFF, CHR 0xD8, CHR 0xBB]]) =
     ([Yield (part [CHR 0xFF, CHR 0xD8, CHR 0xAA, CHR 0xFF, CHR 0xD9])], Normal, 1,
      [CHR 0xFF, CHR 0xD8, CHR 0xBB])" using h6 by simp
  have h7: ?C by code_simp
  from eof_discards_residue [OF h1 h2 h3 h4 h5 h6'] have h8: ?D by (elim conjE)
  from h1 h6 h7 h8 show ?thesis by (intro conjI)
qed

end
